theory Spec2Isabelle
  imports Main
begin

section \<open>The widgets of widgets.js\<close>

text \<open>
  A widget is a JavaScript object whose methods close over private variables. The model
  keeps, for every kind of object the file creates, the variables its closures hold:
  a widget value is the state of one object together with the states of the objects it
  wraps. A method takes the state and returns the new one.

  Every method also returns the calls it made, in order: an event \<open>(p, c)\<close> says that
  the method \<open>c\<close> of the object at path \<open>p\<close> was invoked, the path leading from the
  receiver of the outermost call (the empty path) through wrapped widgets (step \<open>0\<close>)
  and child lists (step \<open>i\<close> for \<open>widgets[i]\<close>). \<open>Tick\<close> and \<open>Reset\<close> are recorded when the
  method is entered, \<open>IsDone b\<close> when the query returns \<open>b\<close>.
\<close>

datatype error = TypeError

type_synonym sprite = "string list"

datatype widget =
    Static_obj
  | AsciiAnimation_obj "sprite list" (frame_of: nat) (content_of: string)
  | RepeatIndefinitely_obj widget
  | Repeat_obj (wrapped_of: widget) int
  | Horizontal_obj "widget list"
  | WithPadding_obj widget string
  | Sequence_obj "widget list" nat
  | ChangingPosition_obj (parent_of: widget) int "int \<Rightarrow> int \<times> int" int "int \<times> int"

text \<open>
  The fields, in order:
  \<^item> \<open>Static_obj\<close>: a widget that overrides \<open>getElement\<close> alone and keeps the defaults of
    \<open>Widget\<close> (\<open>Canvas\<close>, \<open>Circle\<close>, \<open>Textbox\<close>);
  \<^item> \<open>AsciiAnimation_obj\<close>: \<open>sprites\<close>, \<open>animationFrame\<close>, and the text of the \<open>pre\<close>
    element;
  \<^item> \<open>RepeatIndefinitely_obj\<close>: \<open>widget\<close>;
  \<^item> \<open>Repeat_obj\<close>: \<open>widget\<close>, \<open>times\<close>;
  \<^item> \<open>Horizontal_obj\<close>: \<open>widgets\<close>;
  \<^item> \<open>WithPadding_obj\<close>: \<open>widget\<close>, \<open>width\<close>;
  \<^item> \<open>Sequence_obj\<close>: \<open>widgets\<close>, \<open>position\<close>;
  \<^item> \<open>ChangingPosition_obj\<close>: \<open>parent\<close>, \<open>maxTime\<close>, \<open>atTime\<close>, \<open>time\<close>, and the
    \<open>left\<close> and \<open>top\<close> of the \<open>span\<close> element.
  The variable \<open>times\<close> is written \<open>ntimes\<close> below.
\<close>

datatype call = Tick | IsDone bool | Reset

type_synonym event = "nat list \<times> call"

definition under :: "nat list \<Rightarrow> event list \<Rightarrow> event list" where
  "under p es = map (\<lambda>(q, c). (p @ q, c)) es"

subsection \<open>The array functionals\<close>

text \<open>
  Modelled from the spec: \<open>Array.prototype.each\<close> is called by the widgets but is
  defined nowhere in the file; it calls the function on every element in list order, as
  the \<open>foreach\<close> of the same file does. The function may change the element it is
  given, so the model returns the new elements.
\<close>

fun each_from :: "nat \<Rightarrow> ('a \<Rightarrow> 'a \<times> event list) \<Rightarrow> 'a list \<Rightarrow> 'a list \<times> event list" where
  "each_from i f [] = ([], [])"
| "each_from i f (x # xs) =
     (let (x', es) = f x; (xs', es') = each_from (Suc i) f xs
      in (x' # xs', under [i] es @ es'))"

definition each :: "('a \<Rightarrow> 'a \<times> event list) \<Rightarrow> 'a list \<Rightarrow> 'a list \<times> event list" where
  "each f xs = each_from 0 f xs"

text \<open>
  Modelled from the spec: \<open>Array.prototype.each\<close> again, for a function that may throw;
  the exception leaves the loop, so the elements after the one that threw are not
  visited.
\<close>

fun each_try_from ::
  "nat \<Rightarrow> ('a \<Rightarrow> (error + 'a) \<times> event list) \<Rightarrow> 'a list \<Rightarrow> (error + 'a list) \<times> event list" where
  "each_try_from i f [] = (Inr [], [])"
| "each_try_from i f (x # xs) =
     (case f x of
        (Inl e, es) \<Rightarrow> (Inl e, under [i] es)
      | (Inr x', es) \<Rightarrow>
          (case each_try_from (Suc i) f xs of
             (Inl e, es') \<Rightarrow> (Inl e, under [i] es @ es')
           | (Inr xs', es') \<Rightarrow> (Inr (x' # xs'), under [i] es @ es')))"

definition each_try ::
  "('a \<Rightarrow> (error + 'a) \<times> event list) \<Rightarrow> 'a list \<Rightarrow> (error + 'a list) \<times> event list" where
  "each_try f xs = each_try_from 0 f xs"

text \<open>
  \<open>Array.prototype.reduce\<close> as the file redefines it: \<open>acc = f(this[i], acc)\<close> for
  \<open>i\<close> from \<open>0\<close>, the element first and the accumulator second.
\<close>

fun reduce_from ::
  "nat \<Rightarrow> ('a \<Rightarrow> 'b \<Rightarrow> ('b \<times> 'a) \<times> event list) \<Rightarrow> 'b \<Rightarrow> 'a list \<Rightarrow> ('b \<times> 'a list) \<times> event list" where
  "reduce_from i f acc [] = ((acc, []), [])"
| "reduce_from i f acc (x # xs) =
     (let ((acc1, x'), es) = f x acc; ((acc2, xs'), es') = reduce_from (Suc i) f acc1 xs
      in ((acc2, x' # xs'), under [i] es @ es'))"

definition reduce ::
  "('a \<Rightarrow> 'b \<Rightarrow> ('b \<times> 'a) \<times> event list) \<Rightarrow> 'b \<Rightarrow> 'a list \<Rightarrow> ('b \<times> 'a list) \<times> event list" where
  "reduce f acc xs = reduce_from 0 f acc xs"

lemma each_from_agree:
  "(\<And>x. x \<in> set xs \<Longrightarrow> f x = g x) \<Longrightarrow> each_from i f xs = each_from i g xs"
  by (induction xs arbitrary: i) auto

lemma each_cong [fundef_cong]:
  "xs = ys \<Longrightarrow> (\<And>x. x \<in> set ys \<Longrightarrow> f x = g x) \<Longrightarrow> each f xs = each g ys"
  unfolding each_def using each_from_agree [of ys f g 0] by simp

lemma each_try_from_agree:
  "(\<And>x. x \<in> set xs \<Longrightarrow> f x = g x) \<Longrightarrow> each_try_from i f xs = each_try_from i g xs"
  by (induction xs arbitrary: i) (auto split: prod.split sum.split)

lemma each_try_cong [fundef_cong]:
  "xs = ys \<Longrightarrow> (\<And>x. x \<in> set ys \<Longrightarrow> f x = g x) \<Longrightarrow> each_try f xs = each_try g ys"
  unfolding each_try_def using each_try_from_agree [of ys f g 0] by simp

lemma reduce_from_agree:
  "(\<And>x c. x \<in> set xs \<Longrightarrow> f x c = g x c) \<Longrightarrow> reduce_from i f a xs = reduce_from i g a xs"
  by (induction xs arbitrary: i a) auto

lemma reduce_cong [fundef_cong]:
  "xs = ys \<Longrightarrow> a = b \<Longrightarrow> (\<And>x c. x \<in> set ys \<Longrightarrow> f x c = g x c) \<Longrightarrow>
   reduce f a xs = reduce g b ys"
  unfolding reduce_def using reduce_from_agree [of ys f g 0 b] by simp

subsection \<open>reset\<close>

text \<open>
  \<open>Widget.reset\<close> does nothing. \<open>AsciiAnimation\<close> sets \<open>animationFrame\<close> to \<open>0\<close>.
  \<open>Horizontal\<close> and \<open>Sequence\<close> reset every child. The objects made by
  \<open>Object.create(widget)\<close> (\<open>RepeatIndefinitely\<close>, \<open>Repeat\<close>, \<open>WithPadding\<close>,
  \<open>ChangingPosition\<close>) define no \<open>reset\<close>: the call runs the \<open>reset\<close> of the wrapped
  widget.
\<close>

fun reset :: "widget \<Rightarrow> widget \<times> event list" where
  "reset Static_obj = (Static_obj, [([], Reset)])"
| "reset (AsciiAnimation_obj sprites animationFrame innerHTML) =
     (AsciiAnimation_obj sprites 0 innerHTML, [([], Reset)])"
| "reset (RepeatIndefinitely_obj widget) =
     (let (widget', es) = reset widget
      in (RepeatIndefinitely_obj widget', ([], Reset) # under [0] es))"
| "reset (Repeat_obj widget ntimes) =
     (let (widget', es) = reset widget
      in (Repeat_obj widget' ntimes, ([], Reset) # under [0] es))"
| "reset (Horizontal_obj widgets) =
     (let (widgets', es) = each reset widgets
      in (Horizontal_obj widgets', ([], Reset) # es))"
| "reset (WithPadding_obj widget width) =
     (let (widget', es) = reset widget
      in (WithPadding_obj widget' width, ([], Reset) # under [0] es))"
| "reset (Sequence_obj widgets position) =
     (let (widgets', es) = each reset widgets
      in (Sequence_obj widgets' 0, ([], Reset) # es))"
| "reset (ChangingPosition_obj parent maxTime atTime time offset) =
     (let (parent', es) = reset parent
      in (ChangingPosition_obj parent' maxTime atTime time offset, ([], Reset) # under [0] es))"

subsection \<open>isDone\<close>

text \<open>
  The loop of \<open>Sequence.isDone\<close>:
  \<^verbatim>\<open>while (position < widgets.length && widgets[position].isDone()) { position += 1; }\<close>
  with the query passed as \<open>f\<close>.
\<close>

function Sequence_loop ::
  "('a \<Rightarrow> (bool \<times> 'a) \<times> event list) \<Rightarrow> 'a list \<Rightarrow> nat \<Rightarrow> (nat \<times> 'a list) \<times> event list" where
  "Sequence_loop f widgets position =
     (if position < length widgets then
        (let ((d, w'), es) = f (widgets ! position)
         in if d then
              (let (r, es') = Sequence_loop f (widgets[position := w']) (position + 1)
               in (r, under [position] es @ es'))
            else ((position, widgets[position := w']), under [position] es))
      else ((position, widgets), []))"
  by pat_completeness auto
termination
  by (relation "measure (\<lambda>(f, widgets, position). length widgets - position)") auto

lemma Sequence_loop_agree:
  "(\<And>i. position \<le> i \<Longrightarrow> i < length widgets \<Longrightarrow> f (widgets ! i) = g (widgets ! i)) \<Longrightarrow>
   Sequence_loop f widgets position = Sequence_loop g widgets position"
proof (induction f widgets position rule: Sequence_loop.induct)
  case (1 f widgets position)
  show ?case
  proof (cases "position < length widgets")
    case False
    then show ?thesis by (simp add: Sequence_loop.simps [of _ widgets position])
  next
    case True
    have same: "f (widgets ! position) = g (widgets ! position)"
      using "1.prems" [of position] True by simp
    obtain d w' es where r: "g (widgets ! position) = ((d, w'), es)"
      by (metis surj_pair)
    show ?thesis
    proof (cases d)
      case False
      then show ?thesis
        using True same r
        by (simp add: Sequence_loop.simps [of _ widgets position])
    next
      case d: True
      have rf: "((d, w'), es) = f (widgets ! position)" using same r by simp
      have "Sequence_loop f (widgets[position := w']) (position + 1)
          = Sequence_loop g (widgets[position := w']) (position + 1)"
      proof (rule "1.IH" [OF True rf refl refl d])
        fix i assume "position + 1 \<le> i" "i < length (widgets[position := w'])"
        then show "f (widgets[position := w'] ! i) = g (widgets[position := w'] ! i)"
          using "1.prems" [of i] by simp
      qed
      then show ?thesis
        using True same r d
        by (simp add: Sequence_loop.simps [of _ widgets position])
    qed
  qed
qed

lemma Sequence_loop_cong [fundef_cong]:
  "ws = ws' \<Longrightarrow> p = p' \<Longrightarrow> (\<And>w. w \<in> set ws' \<Longrightarrow> f w = g w) \<Longrightarrow>
   Sequence_loop f ws p = Sequence_loop g ws' p'"
  using Sequence_loop_agree [of p' ws' f g] by simp

declare Sequence_loop.simps [simp del]

text \<open>
  \<open>Widget.isDone\<close> returns true. \<open>RepeatIndefinitely\<close> and \<open>Repeat\<close> query the wrapped
  widget and reset it when it is done. \<open>Horizontal\<close> folds
  \<^verbatim>\<open>function(widget, b) { return widget.isDone() && b; }\<close> over its children.
  \<open>WithPadding\<close> defines no \<open>isDone\<close>: the call runs the wrapped widget's.
\<close>

fun isDone :: "widget \<Rightarrow> (bool \<times> widget) \<times> event list" where
  "isDone Static_obj = ((True, Static_obj), [([], IsDone True)])"
| "isDone (AsciiAnimation_obj sprites animationFrame innerHTML) =
     (let d = (animationFrame \<ge> length sprites)
      in ((d, AsciiAnimation_obj sprites animationFrame innerHTML), [([], IsDone d)]))"
| "isDone (RepeatIndefinitely_obj widget) =
     (let ((d, w1), es) = isDone widget;
          (w2, es2) = (if d then reset w1 else (w1, []))
      in ((False, RepeatIndefinitely_obj w2), under [0] (es @ es2) @ [([], IsDone False)]))"
| "isDone (Repeat_obj widget ntimes) =
     (if ntimes \<le> 0 then ((True, Repeat_obj widget ntimes), [([], IsDone True)])
      else
        (let ((d, w1), es) = isDone widget;
             ntimes' = (if d then ntimes - 1 else ntimes);
             (w2, es2) = (if d then reset w1 else (w1, []))
         in ((False, Repeat_obj w2 ntimes'), under [0] (es @ es2) @ [([], IsDone False)])))"
| "isDone (Horizontal_obj widgets) =
     (let ((d, widgets'), es) =
            reduce (\<lambda>widget b. (let ((d, widget'), es) = isDone widget in ((d \<and> b, widget'), es)))
              True widgets
      in ((d, Horizontal_obj widgets'), es @ [([], IsDone d)]))"
| "isDone (WithPadding_obj widget width) =
     (let ((d, widget'), es) = isDone widget
      in ((d, WithPadding_obj widget' width), under [0] es @ [([], IsDone d)]))"
| "isDone (Sequence_obj widgets position) =
     (let ((position', widgets'), es) = Sequence_loop isDone widgets position;
          d = (position' \<ge> length widgets')
      in ((d, Sequence_obj widgets' position'), es @ [([], IsDone d)]))"
| "isDone (ChangingPosition_obj parent maxTime atTime time offset) =
     (let d = (time \<ge> maxTime)
      in ((d, ChangingPosition_obj parent maxTime atTime time offset), [([], IsDone d)]))"


subsection \<open>The prototype chain\<close>

text \<open>
  \<open>RepeatIndefinitely\<close>, \<open>Repeat\<close> and \<open>WithPadding\<close> return \<open>Object.create(widget)\<close> and
  define no \<open>tick\<close>. A call of \<open>tick\<close> on such an object runs the \<open>tick\<close> found further
  down the prototype chain, with \<open>this\<close> still bound to the receiver. The objects passed
  on the way are kept as a list of wrappers, the receiver first, so that \<open>this\<close> is
  \<open>plug ctx w\<close> when the search has reached \<open>w\<close>.
\<close>

datatype wrapper = RepeatIndefinitely_w | Repeat_w int | WithPadding_w string

fun wrap :: "wrapper \<Rightarrow> widget \<Rightarrow> widget" where
  "wrap RepeatIndefinitely_w w = RepeatIndefinitely_obj w"
| "wrap (Repeat_w ntimes) w = Repeat_obj w ntimes"
| "wrap (WithPadding_w width) w = WithPadding_obj w width"

fun plug :: "wrapper list \<Rightarrow> widget \<Rightarrow> widget" where
  "plug [] w = w"
| "plug (c # ctx) w = wrap c (plug ctx w)"

text \<open>The object \<open>k\<close> steps down the prototype chain, and the wrappers above it.\<close>

fun inner :: "nat \<Rightarrow> widget \<Rightarrow> widget" where
  "inner 0 w = w"
| "inner (Suc k) (RepeatIndefinitely_obj w) = inner k w"
| "inner (Suc k) (Repeat_obj w ntimes) = inner k w"
| "inner (Suc k) (WithPadding_obj w width) = inner k w"
| "inner (Suc k) w = w"

fun outer :: "nat \<Rightarrow> widget \<Rightarrow> wrapper list" where
  "outer 0 w = []"
| "outer (Suc k) (RepeatIndefinitely_obj w) = RepeatIndefinitely_w # outer k w"
| "outer (Suc k) (Repeat_obj w ntimes) = Repeat_w ntimes # outer k w"
| "outer (Suc k) (WithPadding_obj w width) = WithPadding_w width # outer k w"
| "outer (Suc k) w = []"

definition here :: "wrapper list \<Rightarrow> nat list" where
  "here ctx = replicate (length ctx) 0"

text \<open>
  The state of a widget with every variable that changes over time set to its initial
  value: what \<open>reset\<close> and \<open>isDone\<close> leave alone. It is used for the termination of \<open>tick\<close>.
\<close>

fun skeleton :: "widget \<Rightarrow> widget" where
  "skeleton Static_obj = Static_obj"
| "skeleton (AsciiAnimation_obj sprites animationFrame innerHTML) = AsciiAnimation_obj sprites 0 []"
| "skeleton (RepeatIndefinitely_obj widget) = RepeatIndefinitely_obj (skeleton widget)"
| "skeleton (Repeat_obj widget ntimes) = Repeat_obj (skeleton widget) 0"
| "skeleton (Horizontal_obj widgets) = Horizontal_obj (map skeleton widgets)"
| "skeleton (WithPadding_obj widget width) = WithPadding_obj (skeleton widget) width"
| "skeleton (Sequence_obj widgets position) = Sequence_obj (map skeleton widgets) 0"
| "skeleton (ChangingPosition_obj parent maxTime atTime time offset) =
     ChangingPosition_obj (skeleton parent) maxTime atTime 0 (0, 0)"

lemma size_skeleton: "size (skeleton w) = size w"
proof (induction w)
  case (Horizontal_obj ws)
  then have "size_list size (map skeleton ws) = size_list size ws"
    by (induction ws) auto
  then show ?case by simp
next
  case (Sequence_obj ws p)
  then have "size_list size (map skeleton ws) = size_list size ws"
    by (induction ws) auto
  then show ?case by simp
qed auto

lemma each_from_skeleton:
  "(\<And>x. x \<in> set xs \<Longrightarrow> skeleton (fst (f x)) = skeleton x) \<Longrightarrow>
   map skeleton (fst (each_from i f xs)) = map skeleton xs"
proof (induction xs arbitrary: i)
  case Nil
  then show ?case by simp
next
  case (Cons x xs)
  have a: "skeleton (fst (f x)) = skeleton x" using Cons.prems [of x] by simp
  have b: "map skeleton (fst (each_from (Suc i) f xs)) = map skeleton xs"
    using Cons.IH Cons.prems by simp
  show ?case using a b by (simp add: case_prod_unfold Let_def)
qed

lemma skeleton_reset: "skeleton (fst (reset w)) = skeleton w"
proof (induction w)
  case (Horizontal_obj ws)
  then show ?case
    using each_from_skeleton [of ws reset 0] by (simp add: each_def case_prod_unfold Let_def)
next
  case (Sequence_obj ws p)
  then show ?case
    using each_from_skeleton [of ws reset 0] by (simp add: each_def case_prod_unfold Let_def)
qed (simp_all add: case_prod_unfold Let_def)

lemma reduce_from_skeleton:
  "(\<And>x c. x \<in> set xs \<Longrightarrow> skeleton (snd (fst (f x c))) = skeleton x) \<Longrightarrow>
   map skeleton (snd (fst (reduce_from i f a xs))) = map skeleton xs"
proof (induction xs arbitrary: i a)
  case Nil
  then show ?case by simp
next
  case (Cons x xs)
  have "skeleton (snd (fst (f x a))) = skeleton x" using Cons.prems [of x a] by simp
  moreover have "\<And>j b. map skeleton (snd (fst (reduce_from j f b xs))) = map skeleton xs"
    using Cons.IH Cons.prems by simp
  ultimately show ?case by (simp add: case_prod_unfold Let_def)
qed

lemma Sequence_loop_skeleton:
  "(\<And>i. position \<le> i \<Longrightarrow> i < length widgets \<Longrightarrow>
      skeleton (snd (fst (f (widgets ! i)))) = skeleton (widgets ! i)) \<Longrightarrow>
   map skeleton (snd (fst (Sequence_loop f widgets position))) = map skeleton widgets"
proof (induction f widgets position rule: Sequence_loop.induct)
  case (1 f widgets position)
  show ?case
  proof (cases "position < length widgets")
    case False
    then show ?thesis by (simp add: Sequence_loop.simps [of _ widgets position])
  next
    case True
    obtain d w' es where r: "f (widgets ! position) = ((d, w'), es)"
      by (metis surj_pair)
    have sk: "skeleton w' = skeleton (widgets ! position)"
      using "1.prems" [of position] True r by simp
    have upd: "map skeleton (widgets[position := w']) = map skeleton widgets"
      using sk True by (simp add: map_update list_update_same_conv)
    show ?thesis
    proof (cases d)
      case False
      then show ?thesis
        using True r upd by (simp add: Sequence_loop.simps [of _ widgets position])
    next
      case d: True
      have "map skeleton (snd (fst (Sequence_loop f (widgets[position := w']) (position + 1))))
          = map skeleton (widgets[position := w'])"
      proof (rule "1.IH" [OF True r [symmetric] refl refl d])
        fix i assume "position + 1 \<le> i" "i < length (widgets[position := w'])"
        then show "skeleton (snd (fst (f (widgets[position := w'] ! i))))
                 = skeleton (widgets[position := w'] ! i)"
          using "1.prems" [of i] by simp
      qed
      then show ?thesis
        using True r d upd
        by (simp add: Sequence_loop.simps [of _ widgets position] case_prod_unfold Let_def)
    qed
  qed
qed

lemma skeleton_isDone: "skeleton (snd (fst (isDone w))) = skeleton w"
proof (induction w)
  case (Horizontal_obj ws)
  have "map skeleton (snd (fst (reduce_from 0
          (\<lambda>widget b. (let ((d, widget'), es) = isDone widget in ((d \<and> b, widget'), es)))
          True ws))) = map skeleton ws"
    by (rule reduce_from_skeleton) (use Horizontal_obj in \<open>simp add: case_prod_unfold Let_def\<close>)
  then show ?case by (simp add: reduce_def case_prod_unfold Let_def)
next
  case (Sequence_obj ws p)
  have "map skeleton (snd (fst (Sequence_loop isDone ws p))) = map skeleton ws"
    by (rule Sequence_loop_skeleton) (use Sequence_obj in simp)
  then show ?case by (simp add: case_prod_unfold Let_def)
qed (simp_all add: skeleton_reset Let_def case_prod_unfold)

lemma inner_plug: "inner (length ctx) (plug ctx w) = w"
proof (induction ctx)
  case (Cons c ctx)
  then show ?case by (cases c) auto
qed simp

lemma outer_plug: "outer (length ctx) (plug ctx w) = ctx"
proof (induction ctx)
  case (Cons c ctx)
  then show ?case by (cases c) auto
qed simp

lemma skeleton_inner:
  "skeleton w1 = skeleton w2 \<Longrightarrow> skeleton (inner k w1) = skeleton (inner k w2)"
proof (induction k arbitrary: w1 w2)
  case 0
  then show ?case by simp
next
  case (Suc k)
  show ?case
  proof (cases w1)
    case (RepeatIndefinitely_obj x)
    with Suc.prems obtain y where "w2 = RepeatIndefinitely_obj y" "skeleton x = skeleton y"
      by (cases w2) simp_all
    then show ?thesis using Suc.IH [of x y] RepeatIndefinitely_obj by simp
  next
    case (Repeat_obj x n)
    with Suc.prems obtain y m where "w2 = Repeat_obj y m" "skeleton x = skeleton y"
      by (cases w2) simp_all
    then show ?thesis using Suc.IH [of x y] Repeat_obj by simp
  next
    case (WithPadding_obj x n)
    with Suc.prems obtain y m where "w2 = WithPadding_obj y m" "skeleton x = skeleton y"
      by (cases w2) simp_all
    then show ?thesis using Suc.IH [of x y] WithPadding_obj by simp
  next
    case Static_obj
    with Suc.prems show ?thesis by (cases w2) simp_all
  next
    case (AsciiAnimation_obj x1 x2 x3)
    with Suc.prems show ?thesis by (cases w2) simp_all
  next
    case (Horizontal_obj x)
    with Suc.prems show ?thesis by (cases w2) simp_all
  next
    case (Sequence_obj x1 x2)
    with Suc.prems show ?thesis by (cases w2) simp_all
  next
    case (ChangingPosition_obj x1 x2 x3 x4 x5)
    with Suc.prems show ?thesis by (cases w2) simp_all
  qed
qed

lemma size_parent_after_isDone:
  "size (parent_of (inner (length ctx)
      (snd (fst (isDone (plug ctx (ChangingPosition_obj parent maxTime atTime time offset)))))))
   = size parent"
proof -
  let ?cp = "ChangingPosition_obj parent maxTime atTime time offset"
  have "skeleton (inner (length ctx) (snd (fst (isDone (plug ctx ?cp)))))
      = skeleton (inner (length ctx) (plug ctx ?cp))"
    by (rule skeleton_inner) (rule skeleton_isDone)
  then have sk: "skeleton (inner (length ctx) (snd (fst (isDone (plug ctx ?cp))))) = skeleton ?cp"
    by (simp add: inner_plug)
  then obtain p1 m1 a1 t1 o1 where
    "inner (length ctx) (snd (fst (isDone (plug ctx ?cp)))) = ChangingPosition_obj p1 m1 a1 t1 o1"
    by (cases "inner (length ctx) (snd (fst (isDone (plug ctx ?cp))))") auto
  with sk have "skeleton (parent_of (inner (length ctx) (snd (fst (isDone (plug ctx ?cp))))))
      = skeleton parent" by simp
  then show ?thesis by (metis size_skeleton)
qed

subsection \<open>tick\<close>

text \<open>
  \<open>useSprite(i)\<close> empties the \<open>pre\<close> element and, with \<open>each\<close>, appends every line
  of \<open>sprites[i]\<close> followed by a newline, in order. Reading \<open>sprites[i]\<close> out of range
  gives \<open>undefined\<close>, and calling \<open>each\<close> on it throws.
\<close>

definition useSprite :: "sprite list \<Rightarrow> nat \<Rightarrow> error + string" where
  "useSprite sprites i =
     (if i < length sprites
      then Inr (foldl (\<lambda>innerHTML line. innerHTML @ line @ [CHR 0x0A]) [] (sprites ! i))
      else Inl TypeError)"

text \<open>
  \<open>tick_in ctx w\<close>: the search for \<open>tick\<close> has reached the object \<open>w\<close> through the
  wrappers \<open>ctx\<close>. It runs the \<open>tick\<close> it finds and returns the new state of \<open>this\<close>,
  the receiver. Only \<open>ChangingPosition\<close> refers to \<open>this\<close>, in \<open>this.isDone()\<close>.
  \<open>Sequence.tick\<close> reads \<open>widgets[position]\<close>, which is \<open>undefined\<close> when the position is
  past the end, and the call of \<open>tick\<close> on it throws.
\<close>

function tick_in :: "wrapper list \<Rightarrow> widget \<Rightarrow> (error + widget) \<times> event list" where
  "tick_in ctx Static_obj = (Inr (plug ctx Static_obj), [(here ctx, Tick)])"
| "tick_in ctx (AsciiAnimation_obj sprites animationFrame innerHTML) =
     (let animationFrame' = animationFrame + 1
      in if animationFrame' < length sprites then
           (case useSprite sprites animationFrame' of
              Inl e \<Rightarrow> (Inl e, [(here ctx, Tick)])
            | Inr innerHTML' \<Rightarrow>
                (Inr (plug ctx (AsciiAnimation_obj sprites animationFrame' innerHTML')),
                 [(here ctx, Tick)]))
         else (Inr (plug ctx (AsciiAnimation_obj sprites animationFrame' innerHTML)),
               [(here ctx, Tick)]))"
| "tick_in ctx (RepeatIndefinitely_obj widget) =
     (let (r, es) = tick_in (ctx @ [RepeatIndefinitely_w]) widget
      in (r, (here ctx, Tick) # es))"
| "tick_in ctx (Repeat_obj widget ntimes) =
     (let (r, es) = tick_in (ctx @ [Repeat_w ntimes]) widget
      in (r, (here ctx, Tick) # es))"
| "tick_in ctx (Horizontal_obj widgets) =
     (case each_try (tick_in []) widgets of
        (Inl e, es) \<Rightarrow> (Inl e, (here ctx, Tick) # under (here ctx) es)
      | (Inr widgets', es) \<Rightarrow>
          (Inr (plug ctx (Horizontal_obj widgets')), (here ctx, Tick) # under (here ctx) es))"
| "tick_in ctx (WithPadding_obj widget width) =
     (let (r, es) = tick_in (ctx @ [WithPadding_w width]) widget
      in (r, (here ctx, Tick) # es))"
| "tick_in ctx (Sequence_obj widgets position) =
     (if position < length widgets then
        (case tick_in [] (widgets ! position) of
           (Inl e, es) \<Rightarrow> (Inl e, (here ctx, Tick) # under (here ctx @ [position]) es)
         | (Inr w', es) \<Rightarrow>
             (Inr (plug ctx (Sequence_obj (widgets[position := w']) position)),
              (here ctx, Tick) # under (here ctx @ [position]) es))
      else (Inl TypeError, [(here ctx, Tick)]))"
| "tick_in ctx (ChangingPosition_obj parent maxTime atTime time offset) =
     (let ((d, this1), es) =
            isDone (plug ctx (ChangingPosition_obj parent maxTime atTime time offset))
      in if \<not> d then
           (let time' = time + 1;
                offset' = atTime time';
                parent1 = parent_of (inner (length ctx) this1)
            in case tick_in [] parent1 of
                 (Inl e, es') \<Rightarrow> (Inl e, (here ctx, Tick) # es @ under (here ctx @ [0]) es')
               | (Inr parent2, es') \<Rightarrow>
                   (Inr (plug (outer (length ctx) this1)
                           (ChangingPosition_obj parent2 maxTime atTime time' offset')),
                    (here ctx, Tick) # es @ under (here ctx @ [0]) es'))
         else (Inr this1, (here ctx, Tick) # es))"
  by pat_completeness auto
termination
proof (relation "measure (\<lambda>(ctx, w). size w)")
  fix ctx :: "wrapper list" and widgets :: "widget list" and x
  assume "x \<in> set widgets"
  then have "size x \<le> size_list size widgets" by (rule size_list_estimation') simp
  then show "(([], x), (ctx, Horizontal_obj widgets)) \<in> measure (\<lambda>(ctx, w). size w)" by simp
next
  fix ctx :: "wrapper list" and widgets :: "widget list" and position :: nat
  assume "position < length widgets"
  then have "widgets ! position \<in> set widgets" by simp
  then have "size (widgets ! position) \<le> size_list size widgets"
    by (rule size_list_estimation') simp
  then show "(([], widgets ! position), (ctx, Sequence_obj widgets position))
      \<in> measure (\<lambda>(ctx, w). size w)" by simp
next
  fix ctx parent maxTime atTime time offset x xa y xb ya xc xd xe
  assume "x = isDone (plug ctx (ChangingPosition_obj parent maxTime atTime time offset))"
    and "(xa, y) = x" and "(xb, ya) = xa" and "xe = parent_of (inner (length ctx) ya)"
  then have "xe = parent_of (inner (length ctx)
      (snd (fst (isDone (plug ctx (ChangingPosition_obj parent maxTime atTime time offset))))))"
    by (metis fst_conv snd_conv)
  then have "size xe = size parent" by (simp add: size_parent_after_isDone)
  then show "(([], xe), (ctx, ChangingPosition_obj parent maxTime atTime time offset))
      \<in> measure (\<lambda>(ctx, w). size w)" by simp
qed auto

definition tick :: "widget \<Rightarrow> (error + widget) \<times> event list" where
  "tick w = tick_in [] w"

subsection \<open>The scheduler\<close>

text \<open>
  \<open>animation(widget, period)\<close> starts \<open>ticker\<close>, which sets a timer; when the timer
  fires, the callback calls \<open>widget.tick()\<close>, then \<open>widget.isDone()\<close>, and starts
  \<open>ticker\<close> again unless the widget is done. The first argument of the model bounds the
  number of times the timer fires. The result is how the run stands (\<open>Done\<close>: \<open>isDone\<close>
  returned true and no timer is set; \<open>Running\<close>: the next timer is pending; \<open>Failed\<close>:
  \<open>tick\<close> threw, so the callback ended without setting a timer), the widget as it
  stands after each completed callback, and the calls made.
\<close>

datatype outcome = Done widget | Running widget | Failed error

fun ticker :: "nat \<Rightarrow> widget \<Rightarrow> outcome \<times> widget list \<times> event list" where
  "ticker 0 widget = (Running widget, [], [])"
| "ticker (Suc n) widget =
     (case tick widget of
        (Inl e, es) \<Rightarrow> (Failed e, [], es)
      | (Inr w1, es) \<Rightarrow>
          (let ((d, w2), es2) = isDone w1
           in if \<not> d then
                (let (r, ws, es3) = ticker n w2 in (r, w2 # ws, es @ es2 @ es3))
              else (Done w2, [w2], es @ es2)))"

definition animation :: "widget \<Rightarrow> nat \<Rightarrow> nat \<Rightarrow> outcome \<times> widget list \<times> event list" where
  "animation widget period n = ticker n widget"

subsection \<open>The constructors\<close>

text \<open>
  Each constructor returns the object in its initial state, or the error it throws.
  \<open>AsciiAnimation\<close> renders sprite \<open>0\<close>. \<open>Sequence\<close> reads \<open>widgets[0].getElement()\<close>.
  The others only store their arguments. \<open>Static_obj\<close> stands for the widgets that override
  \<open>getElement\<close> alone (\<open>Canvas\<close>, \<open>Circle\<close>, \<open>Textbox\<close>).
\<close>

definition AsciiAnimation :: "sprite list \<Rightarrow> error + widget" where
  "AsciiAnimation sprites =
     (case useSprite sprites 0 of
        Inl e \<Rightarrow> Inl e
      | Inr innerHTML \<Rightarrow> Inr (AsciiAnimation_obj sprites 0 innerHTML))"


definition Repeat :: "widget \<Rightarrow> int \<Rightarrow> error + widget" where
  "Repeat widget ntimes = Inr (Repeat_obj widget ntimes)"

definition Textbox :: "string \<Rightarrow> string \<Rightarrow> string \<Rightarrow> string \<Rightarrow> error + widget" where
  "Textbox text bgcolor width height = Inr Static_obj"

definition Horizontal :: "widget list \<Rightarrow> error + widget" where
  "Horizontal widgets = Inr (Horizontal_obj widgets)"

definition WithPadding :: "widget \<Rightarrow> string \<Rightarrow> error + widget" where
  "WithPadding widget width = Inr (WithPadding_obj widget (if width = [] then ''10px'' else width))"

definition Sequence :: "widget list \<Rightarrow> error + widget" where
  "Sequence widgets =
     (case widgets of
        [] \<Rightarrow> Inl TypeError
      | w # ws \<Rightarrow> Inr (Sequence_obj widgets 0))"

definition ChangingPosition :: "widget \<Rightarrow> int \<Rightarrow> (int \<Rightarrow> int \<times> int) \<Rightarrow> error + widget" where
  "ChangingPosition parent maxTime atTime =
     Inr (ChangingPosition_obj parent maxTime atTime 0 (atTime 0))"

subsection \<open>Reading the event log\<close>

text \<open>\<open>at_child i e\<close>: the call \<open>e\<close> is on \<open>widgets[i]\<close> or on a widget inside it.\<close>

definition at_child :: "nat \<Rightarrow> event \<Rightarrow> bool" where
  "at_child i e = (case fst e of [] \<Rightarrow> False | j # q \<Rightarrow> j = i)"


section \<open>Properties\<close>

subsection \<open>Events under a path\<close>

lemma under_Nil [simp]: "under p [] = []"
  by (simp add: under_def)

lemma under_Cons [simp]: "under p ((q, c) # es) = (p @ q, c) # under p es"
  by (simp add: under_def)

lemma under_append [simp]: "under p (es @ es') = under p es @ under p es'"
  by (simp add: under_def)

lemma under_under [simp]: "under p (under q es) = under (p @ q) es"
  by (induction es) auto

lemma under_empty_path [simp]: "under [] es = es"
  by (induction es) auto

lemma length_here [simp]: "length (here ctx) = length ctx"
  by (simp add: here_def)

lemma here_Nil [simp]: "here [] = []"
  by (simp add: here_def)

lemma here_snoc: "here (ctx @ [c]) = here ctx @ [0]"
  by (simp add: here_def replicate_append_same)

lemma here_Cons: "here (c # ctx) = 0 # here ctx"
  by (simp add: here_def)

lemma calls_under:
  "list_all (\<lambda>e. R (snd e)) (under p es) = list_all (\<lambda>e. R (snd e)) es"
  by (induction es) auto

lemma no_Tick_under [simp]:
  "list_all (\<lambda>e. snd e \<noteq> Tick) (under p es) = list_all (\<lambda>e. snd e \<noteq> Tick) es"
  by (rule calls_under)

lemma short_under:
  "k < length p \<Longrightarrow> filter (\<lambda>e. length (fst e) \<le> k \<and> Q e) (under p es) = []"
  by (induction es) auto

lemma short_under_nonroot:
  "list_all (\<lambda>e. fst e \<noteq> []) es \<Longrightarrow>
   filter (\<lambda>e. length (fst e) \<le> length p \<and> Q e) (under p es) = []"
  by (induction es) auto

lemma root_under [simp]: "p \<noteq> [] \<Longrightarrow> filter (\<lambda>e. fst e = []) (under p es) = []"
  by (induction es) auto

lemma nonroot_under [simp]: "p \<noteq> [] \<Longrightarrow> list_all (\<lambda>e. fst e \<noteq> []) (under p es)"
  by (induction es) auto

lemma count_under_same [simp]: "count_list (under p es) (p @ q, c) = count_list es (q, c)"
proof (induction es)
  case Nil
  then show ?case by simp
next
  case (Cons e es)
  obtain a b where e: "e = (a, b)" by (cases e)
  show ?case using Cons by (simp add: e)
qed

lemma count_under_child [simp]: "count_list (under [i] es) ([i], c) = count_list es ([], c)"
  using count_under_same [of "[i]" es "[]" c] by simp

lemma count_under_short [simp]:
  "length q < length p \<Longrightarrow> count_list (under p es) (q, c) = 0"
proof (induction es)
  case Nil
  then show ?case by simp
next
  case (Cons e es)
  obtain a b where e: "e = (a, b)" by (cases e)
  show ?case using Cons by (auto simp: e)
qed

lemma count_under_other [simp]:
  "i \<noteq> j \<Longrightarrow> count_list (under (i # p) es) (j # q, c) = 0"
proof (induction es)
  case Nil
  then show ?case by simp
next
  case (Cons e es)
  obtain a b where e: "e = (a, b)" by (cases e)
  show ?case using Cons by (simp add: e)
qed


subsection \<open>The events of the array functionals\<close>

lemma each_from_nonroot [simp]: "list_all (\<lambda>e. fst e \<noteq> []) (snd (each_from i f xs))"
  by (induction xs arbitrary: i) (auto simp: case_prod_unfold Let_def)

lemma each_try_from_nonroot [simp]: "list_all (\<lambda>e. fst e \<noteq> []) (snd (each_try_from i f xs))"
proof (induction xs arbitrary: i)
  case Nil
  then show ?case by simp
next
  case (Cons x xs)
  obtain r es where fx: "f x = (r, es)" by (cases "f x")
  obtain r' es' where rest: "each_try_from (Suc i) f xs = (r', es')"
    by (cases "each_try_from (Suc i) f xs")
  have "list_all (\<lambda>e. fst e \<noteq> []) es'" using Cons.IH [of "Suc i"] rest by simp
  then show ?case using fx rest by (cases r; cases r') simp_all
qed

lemma reduce_from_nonroot [simp]: "list_all (\<lambda>e. fst e \<noteq> []) (snd (reduce_from i f a xs))"
  by (induction xs arbitrary: i a) (auto simp: case_prod_unfold Let_def)

lemma Sequence_loop_nonroot [simp]:
  "list_all (\<lambda>e. fst e \<noteq> []) (snd (Sequence_loop f widgets position))"
proof (induction f widgets position rule: Sequence_loop.induct)
  case (1 f widgets position)
  show ?case
  proof (cases "position < length widgets")
    case False
    then show ?thesis by (simp add: Sequence_loop.simps [of _ widgets position])
  next
    case True
    obtain d w' es where r: "f (widgets ! position) = ((d, w'), es)"
      by (metis surj_pair)
    show ?thesis
    proof (cases d)
      case False
      then show ?thesis
        using True r by (simp add: Sequence_loop.simps [of _ widgets position])
    next
      case d: True
      have "list_all (\<lambda>e. fst e \<noteq> [])
              (snd (Sequence_loop f (widgets[position := w']) (position + 1)))"
        by (rule "1.IH" [OF True r [symmetric] refl refl d])
      then show ?thesis
        using True r d
        by (simp add: Sequence_loop.simps [of _ widgets position] case_prod_unfold Let_def)
    qed
  qed
qed

lemma nonroot_filter: "list_all (\<lambda>e. fst e \<noteq> []) es \<Longrightarrow> filter (\<lambda>e. fst e = []) es = []"
  by (induction es) auto

lemma each_from_calls:
  "(\<And>x. x \<in> set xs \<Longrightarrow> list_all (\<lambda>e. R (snd e)) (snd (f x))) \<Longrightarrow>
   list_all (\<lambda>e. R (snd e)) (snd (each_from i f xs))"
proof (induction xs arbitrary: i)
  case Nil
  then show ?case by simp
next
  case (Cons x xs)
  have "list_all (\<lambda>e. R (snd e)) (snd (f x))" using Cons.prems [of x] by simp
  moreover have "list_all (\<lambda>e. R (snd e)) (snd (each_from (Suc i) f xs))"
    using Cons.IH Cons.prems by simp
  ultimately show ?case by (simp add: case_prod_unfold Let_def calls_under)
qed

lemma reduce_from_calls:
  "(\<And>x c. x \<in> set xs \<Longrightarrow> list_all (\<lambda>e. R (snd e)) (snd (f x c))) \<Longrightarrow>
   list_all (\<lambda>e. R (snd e)) (snd (reduce_from i f a xs))"
proof (induction xs arbitrary: i a)
  case Nil
  then show ?case by simp
next
  case (Cons x xs)
  have "list_all (\<lambda>e. R (snd e)) (snd (f x a))" using Cons.prems [of x a] by simp
  moreover have "\<And>j b. list_all (\<lambda>e. R (snd e)) (snd (reduce_from j f b xs))"
    using Cons.IH Cons.prems by simp
  ultimately show ?case by (simp add: case_prod_unfold Let_def calls_under)
qed

lemma Sequence_loop_calls:
  "(\<And>i. position \<le> i \<Longrightarrow> i < length widgets \<Longrightarrow>
      list_all (\<lambda>e. R (snd e)) (snd (f (widgets ! i)))) \<Longrightarrow>
   list_all (\<lambda>e. R (snd e)) (snd (Sequence_loop f widgets position))"
proof (induction f widgets position rule: Sequence_loop.induct)
  case (1 f widgets position)
  show ?case
  proof (cases "position < length widgets")
    case False
    then show ?thesis by (simp add: Sequence_loop.simps [of _ widgets position])
  next
    case True
    obtain d w' es where r: "f (widgets ! position) = ((d, w'), es)"
      by (metis surj_pair)
    have es: "list_all (\<lambda>e. R (snd e)) es"
      using "1.prems" [of position] True r by simp
    show ?thesis
    proof (cases d)
      case False
      then show ?thesis
        using True r es by (simp add: Sequence_loop.simps [of _ widgets position] calls_under)
    next
      case d: True
      have "list_all (\<lambda>e. R (snd e))
              (snd (Sequence_loop f (widgets[position := w']) (position + 1)))"
      proof (rule "1.IH" [OF True r [symmetric] refl refl d])
        fix i assume "position + 1 \<le> i" "i < length (widgets[position := w'])"
        then show "list_all (\<lambda>e. R (snd e)) (snd (f (widgets[position := w'] ! i)))"
          using "1.prems" [of i] by simp
      qed
      then show ?thesis
        using True r d es
        by (simp add: Sequence_loop.simps [of _ widgets position] case_prod_unfold Let_def calls_under)
    qed
  qed
qed

subsection \<open>The events of reset and isDone\<close>


lemma isDone_root:
  "filter (\<lambda>e. fst e = []) (snd (isDone w)) = [([], IsDone (fst (fst (isDone w))))]"
  by (cases w) (simp_all add: case_prod_unfold Let_def reduce_def nonroot_filter)

lemma isDone_last:
  "\<exists>es. snd (isDone w) = es @ [([], IsDone (fst (fst (isDone w))))]"
  by (cases w) (simp_all add: case_prod_unfold Let_def)

lemma reset_no_Tick: "list_all (\<lambda>e. snd e \<noteq> Tick) (snd (reset w))"
proof (induction w)
  case (Horizontal_obj ws)
  then show ?case
    using each_from_calls [of ws "\<lambda>c. c \<noteq> Tick" reset 0]
    by (simp add: each_def case_prod_unfold Let_def)
next
  case (Sequence_obj ws p)
  then show ?case
    using each_from_calls [of ws "\<lambda>c. c \<noteq> Tick" reset 0]
    by (simp add: each_def case_prod_unfold Let_def)
qed (simp_all add: case_prod_unfold Let_def)

lemma isDone_no_Tick: "list_all (\<lambda>e. snd e \<noteq> Tick) (snd (isDone w))"
proof (induction w)
  case (Horizontal_obj ws)
  have "list_all (\<lambda>e. snd e \<noteq> Tick) (snd (reduce_from 0
          (\<lambda>widget b. (let ((d, widget'), es) = isDone widget in ((d \<and> b, widget'), es)))
          True ws))"
    by (rule reduce_from_calls) (use Horizontal_obj in \<open>simp add: case_prod_unfold Let_def\<close>)
  then show ?case by (simp add: reduce_def case_prod_unfold Let_def)
next
  case (Sequence_obj ws p)
  have "list_all (\<lambda>e. snd e \<noteq> Tick) (snd (Sequence_loop isDone ws p))"
    by (rule Sequence_loop_calls) (use Sequence_obj in simp)
  then show ?case by (simp add: case_prod_unfold Let_def)
qed (simp_all add: case_prod_unfold Let_def reset_no_Tick)

lemma no_Tick_filter:
  "list_all (\<lambda>e. snd e \<noteq> Tick) es \<Longrightarrow> filter (\<lambda>e. P e \<and> snd e = Tick) es = []"
  by (induction es) auto

subsection \<open>The events of tick\<close>

lemma narrow_Tick:
  assumes "filter (\<lambda>e. length (fst e) \<le> Suc k \<and> snd e = Tick) es = [(p, Tick)]"
    and "length p = Suc k"
  shows "filter (\<lambda>e. length (fst e) \<le> k \<and> snd e = Tick) es = []"
proof -
  have "filter (\<lambda>e. length (fst e) \<le> k \<and> snd e = Tick) es
      = filter (\<lambda>e. length (fst e) \<le> k \<and> snd e = Tick)
          (filter (\<lambda>e. length (fst e) \<le> Suc k \<and> snd e = Tick) es)"
    by (induction es) auto
  then show ?thesis using assms by simp
qed

lemma tick_in_Tick_events:
  "filter (\<lambda>e. length (fst e) \<le> length ctx \<and> snd e = Tick) (snd (tick_in ctx w))
   = [(here ctx, Tick)]"
proof (induction ctx w rule: tick_in.induct)
  case (1 ctx)
  show ?case by simp
next
  case (2 ctx sprites animationFrame innerHTML)
  show ?case by (simp add: Let_def split: sum.split)
next
  case (3 ctx widget)
  have "filter (\<lambda>e. length (fst e) \<le> length ctx \<and> snd e = Tick)
          (snd (tick_in (ctx @ [RepeatIndefinitely_w]) widget)) = []"
    by (rule narrow_Tick [where p = "here (ctx @ [RepeatIndefinitely_w])"]) (use 3 in simp_all)
  then show ?case by (simp add: case_prod_unfold Let_def)
next
  case (4 ctx widget ntimes)
  have "filter (\<lambda>e. length (fst e) \<le> length ctx \<and> snd e = Tick)
          (snd (tick_in (ctx @ [Repeat_w ntimes]) widget)) = []"
    by (rule narrow_Tick [where p = "here (ctx @ [Repeat_w ntimes])"]) (use 4 in simp_all)
  then show ?case by (simp add: case_prod_unfold Let_def)
next
  case (5 ctx widgets)
  have "filter (\<lambda>e. length (fst e) \<le> length (here ctx) \<and> snd e = Tick)
          (under (here ctx) (snd (each_try (tick_in []) widgets))) = []"
    by (rule short_under_nonroot) (simp add: each_try_def)
  moreover obtain r es where "each_try (tick_in []) widgets = (r, es)"
    by (cases "each_try (tick_in []) widgets")
  ultimately show ?case by (cases r) simp_all
next
  case (6 ctx widget width)
  have "filter (\<lambda>e. length (fst e) \<le> length ctx \<and> snd e = Tick)
          (snd (tick_in (ctx @ [WithPadding_w width]) widget)) = []"
    by (rule narrow_Tick [where p = "here (ctx @ [WithPadding_w width])"]) (use 6 in simp_all)
  then show ?case by (simp add: case_prod_unfold Let_def)
next
  case (7 ctx widgets position)
  have "\<And>es. filter (\<lambda>e. length (fst e) \<le> length ctx \<and> snd e = Tick)
          (under (here ctx @ [position]) es) = []"
    by (rule short_under) simp
  then show ?case by (simp split: prod.split sum.split)
next
  case (8 ctx parent maxTime atTime time offset)
  have a: "\<And>es. filter (\<lambda>e. length (fst e) \<le> length ctx \<and> snd e = Tick)
          (under (here ctx @ [0]) es) = []"
    by (rule short_under) simp
  have b: "filter (\<lambda>e. length (fst e) \<le> length ctx \<and> snd e = Tick)
          (snd (isDone (plug ctx (ChangingPosition_obj parent maxTime atTime time offset)))) = []"
    by (rule no_Tick_filter) (rule isDone_no_Tick)
  show ?case using a b by (simp add: case_prod_unfold Let_def split: prod.split sum.split)
qed

lemma count_short_Tick:
  "length q \<le> k \<Longrightarrow> count_list es (q, Tick)
     = count_list (filter (\<lambda>e. length (fst e) \<le> k \<and> snd e = Tick) es) (q, Tick)"
  by (induction es) auto

lemma tick_root_Tick: "count_list (snd (tick w)) ([], Tick) = 1"
  using tick_in_Tick_events [of "[]" w] count_short_Tick [of "[]" 0 "snd (tick_in [] w)"]
  by (simp add: tick_def)

lemma tick_in_wrapped_Tick:
  "count_list (snd (tick_in [c] w)) ([0], Tick) = 1 \<and> count_list (snd (tick_in [c] w)) ([], Tick) = 0"
  using tick_in_Tick_events [of "[c]" w]
    count_short_Tick [of "[0]" 1 "snd (tick_in [c] w)"]
    count_short_Tick [of "[]" 1 "snd (tick_in [c] w)"]
  by (simp add: here_def)

subsection \<open>Ticking a wrapped widget\<close>

lemma tick_Repeat: "tick (Repeat_obj w t) = (fst (tick_in [Repeat_w t] w), ([], Tick) # snd (tick_in [Repeat_w t] w))"
  by (simp add: tick_def case_prod_unfold Let_def)


lemma tick_in_Repeat_exhausted:
  "ctx0 = Repeat_w t # ctx \<Longrightarrow> t \<le> 0 \<Longrightarrow> fst (tick_in ctx0 w) = Inr r \<Longrightarrow>
   \<exists>w'. r = Repeat_obj w' t"
proof (induction ctx0 w arbitrary: ctx r rule: tick_in.induct)
  case (1 ctx0)
  then show ?case by auto
next
  case (2 ctx0 sprites animationFrame innerHTML)
  then show ?case by (auto simp: Let_def split: sum.splits if_splits)
next
  case (3 ctx0 widget)
  have "fst (tick_in (ctx0 @ [RepeatIndefinitely_w]) widget) = Inr r"
    using "3.prems"(3) by (simp add: case_prod_unfold Let_def)
  then show ?case using "3.IH" [of "ctx @ [RepeatIndefinitely_w]" r] "3.prems" by simp
next
  case (4 ctx0 widget ntimes)
  have "fst (tick_in (ctx0 @ [Repeat_w ntimes]) widget) = Inr r"
    using "4.prems"(3) by (simp add: case_prod_unfold Let_def)
  then show ?case using "4.IH" [of "ctx @ [Repeat_w ntimes]" r] "4.prems" by simp
next
  case (5 ctx0 widgets)
  then show ?case by (auto split: prod.splits sum.splits)
next
  case (6 ctx0 widget width)
  have "fst (tick_in (ctx0 @ [WithPadding_w width]) widget) = Inr r"
    using "6.prems"(3) by (simp add: case_prod_unfold Let_def)
  then show ?case using "6.IH" [of "ctx @ [WithPadding_w width]" r] "6.prems" by simp
next
  case (7 ctx0 widgets position)
  then show ?case by (auto split: prod.splits sum.splits if_splits)
next
  case (8 ctx0 parent maxTime atTime time offset)
  let ?cp = "ChangingPosition_obj parent maxTime atTime time offset"
  have "isDone (plug ctx0 ?cp) = ((True, Repeat_obj (plug ctx ?cp) t), [([], IsDone True)])"
    using "8.prems"(1,2) by simp
  then show ?case using "8.prems"(3) by auto
qed

lemma ticker_Repeat_exhausted:
  assumes "t \<le> 0"
  shows "ticker (Suc n) (Repeat_obj w t) =
    (case tick (Repeat_obj w t) of
       (Inl e, es) \<Rightarrow> (Failed e, [], es)
     | (Inr r, es) \<Rightarrow> (Done r, [r], es @ [([], IsDone True)]))"
proof (cases "fst (tick (Repeat_obj w t))")
  case (Inl e)
  then show ?thesis by (simp add: case_prod_unfold Let_def)
next
  case (Inr r)
  then have "fst (tick_in [Repeat_w t] w) = Inr r" by (simp add: tick_Repeat)
  then obtain w' where "r = Repeat_obj w' t"
    using tick_in_Repeat_exhausted [of "[Repeat_w t]" t "[]" w r] assms by auto
  then show ?thesis using Inr assms by (simp add: case_prod_unfold Let_def)
qed

lemma ticker_Repeat_exhausted_events:
  assumes "t \<le> 0"
  shows "count_list (snd (snd (ticker (Suc n) (Repeat_obj w t)))) ([], Tick) = 1
       \<and> count_list (snd (snd (ticker (Suc n) (Repeat_obj w t)))) ([0], Tick) = 1"
proof -
  have "snd (snd (ticker (Suc n) (Repeat_obj w t)))
      = (case fst (tick (Repeat_obj w t)) of
           Inl e \<Rightarrow> snd (tick (Repeat_obj w t))
         | Inr r \<Rightarrow> snd (tick (Repeat_obj w t)) @ [([], IsDone True)])"
    using ticker_Repeat_exhausted [OF assms, of n w]
    by (simp add: case_prod_unfold Let_def split: sum.split)
  then show ?thesis
    using tick_in_wrapped_Tick [of "Repeat_w t" w]
    by (simp add: tick_Repeat split: sum.split)
qed

subsection \<open>Repeat\<close>

text \<open>
  Claim C2: \<open>Repeat(w, 0)\<close> reports \<open>isDone()\<close> true on the first query, and the \<open>tick()\<close>
  of \<open>w\<close> is never invoked when \<open>Repeat(w, 0)\<close> is driven by the scheduler or ticked.
  The second half fails: \<open>Repeat\<close> defines no \<open>tick\<close>, so a tick of the composite runs
  the \<open>tick\<close> of \<open>w\<close>, and the scheduler ticks before it asks \<open>isDone()\<close>. Here the
  wrapped animation has moved to sprite \<open>1\<close> when the run is over.
\<close>

theorem C2_wrapped_widget_is_ticked:
  "animation (Repeat_obj (AsciiAnimation_obj [[''a''], [''b'']] 0 ''a\<newline>'') 0) 100 1
   = (Done (Repeat_obj (AsciiAnimation_obj [[''a''], [''b'']] 1 ''b\<newline>'') 0),
      [Repeat_obj (AsciiAnimation_obj [[''a''], [''b'']] 1 ''b\<newline>'') 0],
      [([], Tick), ([0], Tick), ([], IsDone True)])
   \<and> tick (Repeat_obj (AsciiAnimation_obj [[''a''], [''b'']] 0 ''a\<newline>'') 0)
   = (Inr (Repeat_obj (AsciiAnimation_obj [[''a''], [''b'']] 1 ''b\<newline>'') 0),
      [([], Tick), ([0], Tick)])"
  by (simp add: animation_def tick_def useSprite_def here_def)

text \<open>
  Claim C2 as amended: for every widget \<open>w\<close>, \<open>Repeat(w, 0)\<close> constructs, and its
  \<open>isDone()\<close> returns true on the first query without calling \<open>w\<close>. A \<open>tick()\<close> of
  \<open>Repeat(w, 0)\<close> invokes the \<open>tick\<close> of \<open>w\<close> exactly once. Driven by the scheduler,
  the composite is ticked once, which ticks \<open>w\<close> once, and is then done (or the run
  fails with the error that the tick of \<open>w\<close> threw).
\<close>

theorem C2_Repeat_zero:
  "Repeat w 0 = Inr (Repeat_obj w 0)
   \<and> isDone (Repeat_obj w 0) = ((True, Repeat_obj w 0), [([], IsDone True)])
   \<and> count_list (snd (tick (Repeat_obj w 0))) ([0], Tick) = 1
   \<and> animation (Repeat_obj w 0) period (Suc n) =
       (case tick (Repeat_obj w 0) of
          (Inl e, es) \<Rightarrow> (Failed e, [], es)
        | (Inr r, es) \<Rightarrow> (Done r, [r], es @ [([], IsDone True)]))
   \<and> count_list (snd (snd (animation (Repeat_obj w 0) period (Suc n)))) ([0], Tick) = 1"
proof -
  have "count_list (snd (tick (Repeat_obj w 0))) ([0], Tick) = 1"
    using tick_in_wrapped_Tick [of "Repeat_w 0" w] by (simp add: tick_Repeat)
  moreover have "animation (Repeat_obj w 0) period (Suc n) =
       (case tick (Repeat_obj w 0) of
          (Inl e, es) \<Rightarrow> (Failed e, [], es)
        | (Inr r, es) \<Rightarrow> (Done r, [r], es @ [([], IsDone True)]))"
    unfolding animation_def by (rule ticker_Repeat_exhausted) simp
  moreover have "count_list (snd (snd (animation (Repeat_obj w 0) period (Suc n)))) ([0], Tick) = 1"
    unfolding animation_def using ticker_Repeat_exhausted_events [of 0 n w] by simp
  ultimately show ?thesis by (simp add: Repeat_def)
qed

text \<open>
  Claim C10: the \<open>isDone()\<close> call of \<open>Repeat(w, n)\<close> that finds \<open>w\<close> done and takes the
  counter from \<open>1\<close> to \<open>0\<close> returns false, and only a later query returns true; so
  under the scheduler \<open>w\<close> gets exactly one more tick after its last run before the
  composite reports done, for every widget \<open>w\<close>. The last part fails for a \<open>w\<close> whose
  \<open>tick\<close> calls \<open>this.isDone()\<close>: ticked through the \<open>Repeat\<close> object, \<open>this\<close> is that
  object, so the query that takes the counter to \<open>0\<close> runs inside the tick. Below,
  \<open>w\<close> is a static widget with \<open>ChangingPosition(0, _)\<close>, done from the start, in
  \<open>Repeat(_, 1)\<close>: the first tick makes that query and goes on, the scheduler's query
  then returns true, and no further tick follows.
\<close>

theorem C10_decrement_inside_tick:
  "ChangingPosition Static_obj 0 (\<lambda>t. (t, 0))
     = Inr (ChangingPosition_obj Static_obj 0 (\<lambda>t. (t, 0)) 0 (0, 0))
   \<and> animation (Repeat_obj (ChangingPosition_obj Static_obj 0 (\<lambda>t. (t, 0)) 0 (0, 0)) 1) 100 5
     = (Done (Repeat_obj (ChangingPosition_obj Static_obj 0 (\<lambda>t. (t, 0)) 1 (1, 0)) 0),
        [Repeat_obj (ChangingPosition_obj Static_obj 0 (\<lambda>t. (t, 0)) 1 (1, 0)) 0],
        [([], Tick), ([0], Tick), ([0], IsDone True), ([0], Reset), ([0, 0], Reset),
         ([], IsDone False), ([0, 0], Tick), ([], IsDone True)])"
  by (simp add: ChangingPosition_def animation_def eval_nat_numeral tick_def here_def)

text \<open>
  Claim C10 as amended: \<open>isDone()\<close> of \<open>Repeat\<close> returns true exactly when the counter is
  not positive on entry. So the query that finds \<open>w\<close> done with the counter at \<open>1\<close> sets
  the counter to \<open>0\<close>, resets \<open>w\<close> and returns false, and the next query returns true.
  When a callback of the scheduler ends with the counter at \<open>0\<close> and the run not done
  (as it does when the scheduler's own query took the counter to \<open>0\<close>), the scheduler
  ticks the composite exactly once more, which ticks \<open>w\<close> exactly once, and the run is
  then done; it never stays running, and it fails only with the error that this tick
  threw.
\<close>

theorem C10_last_decrement_reports_not_done:
  "fst (fst (isDone (Repeat_obj w t))) = (t \<le> 0)
   \<and> isDone (Repeat_obj w 1) =
       (let ((d, w1), es) = isDone w
        in if d then
             (let (w2, es2) = reset w1
              in ((False, Repeat_obj w2 0), under [0] (es @ es2) @ [([], IsDone False)]))
           else ((False, Repeat_obj w1 1), under [0] es @ [([], IsDone False)]))
   \<and> isDone (Repeat_obj w 0) = ((True, Repeat_obj w 0), [([], IsDone True)])
   \<and> (case ticker (Suc n) (Repeat_obj w 0) of
        (r, ws, es) \<Rightarrow>
          count_list es ([], Tick) = 1 \<and> count_list es ([0], Tick) = 1
          \<and> (case r of
                Done r' \<Rightarrow> fst (tick (Repeat_obj w 0)) = Inr r'
              | Running r' \<Rightarrow> False
              | Failed e \<Rightarrow> fst (tick (Repeat_obj w 0)) = Inl e))"
proof -
  have a: "fst (fst (isDone (Repeat_obj w t))) = (t \<le> 0)"
    by (simp add: case_prod_unfold Let_def)
  have b: "isDone (Repeat_obj w 1) =
       (let ((d, w1), es) = isDone w
        in if d then
             (let (w2, es2) = reset w1
              in ((False, Repeat_obj w2 0), under [0] (es @ es2) @ [([], IsDone False)]))
           else ((False, Repeat_obj w1 1), under [0] es @ [([], IsDone False)]))"
    by (simp add: case_prod_unfold Let_def)
  have c: "isDone (Repeat_obj w 0) = ((True, Repeat_obj w 0), [([], IsDone True)])"
    by simp
  have d: "(case ticker (Suc n) (Repeat_obj w 0) of
        (r, ws, es) \<Rightarrow>
          count_list es ([], Tick) = 1 \<and> count_list es ([0], Tick) = 1
          \<and> (case r of
                Done r' \<Rightarrow> fst (tick (Repeat_obj w 0)) = Inr r'
              | Running r' \<Rightarrow> False
              | Failed e \<Rightarrow> fst (tick (Repeat_obj w 0)) = Inl e))"
    using ticker_Repeat_exhausted_events [of 0 n w] ticker_Repeat_exhausted [of 0 n w]
    by (simp add: case_prod_unfold Let_def split: sum.split)
  show ?thesis using a b c d by blast
qed

subsection \<open>A finished run\<close>

lemma ticker_Done_more:
  "fst (ticker k w) = Done w' \<Longrightarrow> ticker (k + n) w = ticker k w"
proof (induction k arbitrary: w)
  case 0
  then show ?case by simp
next
  case (Suc k)
  show ?case
  proof (cases "tick w")
    case (Pair r es)
    show ?thesis
    proof (cases r)
      case (Inl e)
      then show ?thesis using Pair by simp
    next
      case (Inr w1)
      obtain d w2 es2 where q: "isDone w1 = ((d, w2), es2)" by (metis surj_pair)
      show ?thesis
      proof (cases d)
        case True
        then show ?thesis using Pair Inr q by simp
      next
        case False
        then have "fst (ticker k w2) = Done w'"
          using Suc.prems Pair Inr q by (simp add: case_prod_unfold Let_def)
        then have "ticker (k + n) w2 = ticker k w2" by (rule Suc.IH)
        then show ?thesis using Pair Inr q False by simp
      qed
    qed
  qed
qed

text \<open>
  Claim C1: a 3-frame \<open>AsciiAnimation\<close> wrapped in \<open>Repeat(_, 2)\<close> and driven by the
  scheduler gets exactly 6 ticks before the composite reports done, showing frames
  0, 1, 2, (reset) 0, 1, 2. The claim fails: after the sixth tick \<open>isDone()\<close> has
  returned false six times and the run goes on; the composite is done after the
  seventh tick. The sprites on display after the seven callbacks are
  1, 2, 2, 1, 2, 2, 1.
\<close>

theorem C1_seventh_tick:
  "fst (animation (Repeat_obj (AsciiAnimation_obj [[''a''], [''b''], [''c'']] 0 ''a\<newline>'') 2) 100 6)
     = Running (Repeat_obj (AsciiAnimation_obj [[''a''], [''b''], [''c'']] 0 ''c\<newline>'') 0)
   \<and> fst (animation (Repeat_obj (AsciiAnimation_obj [[''a''], [''b''], [''c'']] 0 ''a\<newline>'') 2) 100 7)
     = Done (Repeat_obj (AsciiAnimation_obj [[''a''], [''b''], [''c'']] 1 ''b\<newline>'') 0)
   \<and> count_list
        (snd (snd (animation
           (Repeat_obj (AsciiAnimation_obj [[''a''], [''b''], [''c'']] 0 ''a\<newline>'') 2) 100 7)))
        ([], Tick) = 7
   \<and> map (\<lambda>w. content_of (wrapped_of w))
        (fst (snd (animation
           (Repeat_obj (AsciiAnimation_obj [[''a''], [''b''], [''c'']] 0 ''a\<newline>'') 2) 100 7)))
     = [''b\<newline>'', ''c\<newline>'', ''c\<newline>'', ''b\<newline>'', ''c\<newline>'', ''c\<newline>'', ''b\<newline>'']"
  by (simp add: animation_def eval_nat_numeral tick_def useSprite_def here_def)

text \<open>
  Claim C1 as amended: a 3-frame \<open>AsciiAnimation\<close> wrapped in \<open>Repeat(_, 2)\<close> and driven
  by the scheduler gets exactly 7 ticks before the composite reports done: three for
  each of the two runs, and one more after the second reset. The frame index after the
  seven callbacks is 1, 2, 0 (reset), 1, 2, 0 (reset), 1. With six timer firings the run is
  still going; with seven or more it is done after the seventh.
\<close>

theorem C1_repeat_twice_three_frames:
  "AsciiAnimation [f0, f1, f2]
     = Inr (AsciiAnimation_obj [f0, f1, f2] 0 (projr (useSprite [f0, f1, f2] 0)))
   \<and> Repeat (AsciiAnimation_obj [f0, f1, f2] 0 (projr (useSprite [f0, f1, f2] 0))) 2
     = Inr (Repeat_obj (AsciiAnimation_obj [f0, f1, f2] 0 (projr (useSprite [f0, f1, f2] 0))) 2)
   \<and> (case animation
          (Repeat_obj (AsciiAnimation_obj [f0, f1, f2] 0 (projr (useSprite [f0, f1, f2] 0))) 2)
          period (7 + n) of
        (r, ws, es) \<Rightarrow>
          (case r of Done w \<Rightarrow> True | Running w \<Rightarrow> False | Failed e \<Rightarrow> False)
          \<and> map (\<lambda>w. frame_of (wrapped_of w)) ws = [1, 2, 0, 1, 2, 0, 1]
          \<and> count_list es ([], Tick) = 7
          \<and> count_list es ([0], Tick) = 7
          \<and> count_list es ([0], Reset) = 2)
   \<and> (case fst (animation
          (Repeat_obj (AsciiAnimation_obj [f0, f1, f2] 0 (projr (useSprite [f0, f1, f2] 0))) 2)
          period 6) of
        Done w \<Rightarrow> False | Running w \<Rightarrow> True | Failed e \<Rightarrow> False)"
proof -
  let ?a = "AsciiAnimation_obj [f0, f1, f2] 0 (projr (useSprite [f0, f1, f2] 0))"
  have seven: "ticker 7 (Repeat_obj ?a 2) =
    (Done (Repeat_obj (AsciiAnimation_obj [f0, f1, f2] 1 (projr (useSprite [f0, f1, f2] 1))) 0),
     [Repeat_obj (AsciiAnimation_obj [f0, f1, f2] 1 (projr (useSprite [f0, f1, f2] 1))) 2,
      Repeat_obj (AsciiAnimation_obj [f0, f1, f2] 2 (projr (useSprite [f0, f1, f2] 2))) 2,
      Repeat_obj (AsciiAnimation_obj [f0, f1, f2] 0 (projr (useSprite [f0, f1, f2] 2))) 1,
      Repeat_obj (AsciiAnimation_obj [f0, f1, f2] 1 (projr (useSprite [f0, f1, f2] 1))) 1,
      Repeat_obj (AsciiAnimation_obj [f0, f1, f2] 2 (projr (useSprite [f0, f1, f2] 2))) 1,
      Repeat_obj (AsciiAnimation_obj [f0, f1, f2] 0 (projr (useSprite [f0, f1, f2] 2))) 0,
      Repeat_obj (AsciiAnimation_obj [f0, f1, f2] 1 (projr (useSprite [f0, f1, f2] 1))) 0],
     [([], Tick), ([0], Tick), ([0], IsDone False), ([], IsDone False),
      ([], Tick), ([0], Tick), ([0], IsDone False), ([], IsDone False),
      ([], Tick), ([0], Tick), ([0], IsDone True), ([0], Reset), ([], IsDone False),
      ([], Tick), ([0], Tick), ([0], IsDone False), ([], IsDone False),
      ([], Tick), ([0], Tick), ([0], IsDone False), ([], IsDone False),
      ([], Tick), ([0], Tick), ([0], IsDone True), ([0], Reset), ([], IsDone False),
      ([], Tick), ([0], Tick), ([], IsDone True)])"
    by (simp add: eval_nat_numeral tick_def useSprite_def here_def)
  have more: "ticker (7 + n) (Repeat_obj ?a 2) = ticker 7 (Repeat_obj ?a 2)"
    by (rule ticker_Done_more) (simp add: seven)
  have six: "fst (ticker 6 (Repeat_obj ?a 2))
      = Running (Repeat_obj (AsciiAnimation_obj [f0, f1, f2] 0 (projr (useSprite [f0, f1, f2] 2))) 0)"
    by (simp add: eval_nat_numeral tick_def useSprite_def here_def)
  have a: "AsciiAnimation [f0, f1, f2] = Inr ?a"
    by (simp add: AsciiAnimation_def useSprite_def)
  show ?thesis
    unfolding animation_def more seven six using a by (simp add: Repeat_def)
qed

subsection \<open>RepeatIndefinitely\<close>









subsection \<open>Horizontal\<close>

lemma direct_under_child:
  "filter (\<lambda>e. length (fst e) = Suc 0 \<and> snd e = Tick) (under [i] es)
   = under [i] (filter (\<lambda>e. fst e = [] \<and> snd e = Tick) es)"
  by (induction es) auto

lemma direct_under_child_any:
  "filter (\<lambda>e. length (fst e) = Suc 0) (under [i] es)
   = under [i] (filter (\<lambda>e. fst e = []) es)"
  by (induction es) auto

lemma tick_root_only:
  "filter (\<lambda>e. fst e = [] \<and> snd e = Tick) (snd (tick w)) = [([], Tick)]"
  using tick_in_Tick_events [of "[]" w] by (simp add: tick_def)

lemma reduce_from_isDone:
  "fst (reduce_from i
     (\<lambda>widget b.
          ((fst (fst (isDone widget)) \<and> b, snd (fst (isDone widget))), snd (isDone widget)))
        acc ws)
   = (list_all (\<lambda>w. fst (fst (isDone w))) ws \<and> acc, map (\<lambda>w. snd (fst (isDone w))) ws)"
  by (induction ws arbitrary: i acc) (auto simp: case_prod_unfold Let_def)

lemma reduce_from_isDone_direct:
  "filter (\<lambda>e. length (fst e) = Suc 0)
     (snd (reduce_from i
        (\<lambda>widget b.
          ((fst (fst (isDone widget)) \<and> b, snd (fst (isDone widget))), snd (isDone widget)))
        acc ws))
   = map (\<lambda>(j, w). ([j], IsDone (fst (fst (isDone w))))) (enumerate i ws)"
proof (induction ws arbitrary: i acc)
  case Nil
  show ?case by simp
next
  case (Cons w ws)
  show ?case
    using Cons.IH
    by (simp add: case_prod_unfold Let_def direct_under_child_any isDone_root)
qed

lemma each_try_from_tick_result:
  "fst (each_try_from i tick ws)
   = (if list_all (\<lambda>w. \<not> isl (fst (tick w))) ws
      then Inr (map (\<lambda>w. projr (fst (tick w))) ws) else Inl TypeError)"
proof (induction ws arbitrary: i)
  case Nil
  show ?case by simp
next
  case (Cons w ws)
  obtain r es where t: "tick w = (r, es)" by (cases "tick w")
  obtain r' es' where rest: "each_try_from (Suc i) tick ws = (r', es')"
    by (cases "each_try_from (Suc i) tick ws")
  have ih: "r' = (if list_all (\<lambda>w. \<not> isl (fst (tick w))) ws
      then Inr (map (\<lambda>w. projr (fst (tick w))) ws) else Inl TypeError)"
    using Cons.IH [of "Suc i"] rest by simp
  show ?case
  proof (cases r)
    case (Inl e)
    then show ?thesis using t by (cases e) simp
  next
    case (Inr w')
    then show ?thesis using t rest ih by (cases r') (simp_all split: if_splits)
  qed
qed

lemma each_try_from_tick_direct:
  "filter (\<lambda>e. length (fst e) = Suc 0 \<and> snd e = Tick) (snd (each_try_from i tick ws))
   = map (\<lambda>(j, w). ([j], Tick))
       (take (Suc (length (takeWhile (\<lambda>w. \<not> isl (fst (tick w))) ws))) (enumerate i ws))"
proof (induction ws arbitrary: i)
  case Nil
  show ?case by simp
next
  case (Cons w ws)
  obtain r es where t: "tick w = (r, es)" by (cases "tick w")
  obtain r' es' where rest: "each_try_from (Suc i) tick ws = (r', es')"
    by (cases "each_try_from (Suc i) tick ws")
  have root: "filter (\<lambda>e. fst e = [] \<and> snd e = Tick) es = [([], Tick)]"
    using tick_root_only [of w] t by simp
  have ih: "filter (\<lambda>e. length (fst e) = Suc 0 \<and> snd e = Tick) es'
    = map (\<lambda>(j, w). ([j], Tick))
        (take (Suc (length (takeWhile (\<lambda>w. \<not> isl (fst (tick w))) ws))) (enumerate (Suc i) ws))"
    using Cons.IH [of "Suc i"] rest by simp
  show ?case
  proof (cases r)
    case (Inl e)
    then show ?thesis using t root by (simp add: direct_under_child)
  next
    case (Inr w')
    then show ?thesis using t rest root ih by (cases r') (simp_all add: direct_under_child)
  qed
qed

lemma tick_Horizontal:
  "tick (Horizontal_obj ws)
   = (case fst (each_try_from 0 tick ws) of
        Inl e \<Rightarrow> Inl e
      | Inr ws' \<Rightarrow> Inr (Horizontal_obj ws'),
      ([], Tick) # snd (each_try_from 0 tick ws))"
proof -
  have eq: "each_try_from 0 (tick_in []) ws = each_try_from 0 tick ws"
    by (rule each_try_from_agree) (simp add: tick_def)
  obtain r es where e: "each_try_from 0 tick ws = (r, es)"
    by (cases "each_try_from 0 tick ws")
  show ?thesis using eq e by (cases r) (simp_all add: tick_def each_try_def)
qed

text \<open>
  What \<open>Horizontal\<close> does on every list of children. \<open>isDone()\<close> returns the conjunction
  of what the children's \<open>isDone()\<close> return, and it queries every child exactly once, in
  list order, whatever the earlier children answered; each child is left in the state
  its own query leaves it in. \<open>tick()\<close> calls \<open>tick()\<close> on the children in list order,
  done or not, up to and including the first child whose tick throws; when none
  throws, the new state holds every child after its tick.
\<close>

lemma Horizontal_queries_and_ticks:
  "Horizontal ws = Inr (Horizontal_obj ws)
   \<and> fst (isDone (Horizontal_obj ws))
     = (list_all (\<lambda>w. fst (fst (isDone w))) ws,
        Horizontal_obj (map (\<lambda>w. snd (fst (isDone w))) ws))
   \<and> filter (\<lambda>e. length (fst e) = 1) (snd (isDone (Horizontal_obj ws)))
     = map (\<lambda>(i, w). ([i], IsDone (fst (fst (isDone w))))) (enumerate 0 ws)
   \<and> filter (\<lambda>e. length (fst e) = 1 \<and> snd e = Tick) (snd (tick (Horizontal_obj ws)))
     = map (\<lambda>(i, w). ([i], Tick))
         (take (Suc (length (takeWhile (\<lambda>w. \<not> isl (fst (tick w))) ws))) (enumerate 0 ws))
   \<and> fst (tick (Horizontal_obj ws))
     = (if list_all (\<lambda>w. \<not> isl (fst (tick w))) ws
        then Inr (Horizontal_obj (map (\<lambda>w. projr (fst (tick w))) ws))
        else Inl TypeError)"
proof -
  have a: "fst (isDone (Horizontal_obj ws))
     = (list_all (\<lambda>w. fst (fst (isDone w))) ws,
        Horizontal_obj (map (\<lambda>w. snd (fst (isDone w))) ws))"
    by (simp add: reduce_def case_prod_unfold Let_def reduce_from_isDone)
  have b: "filter (\<lambda>e. length (fst e) = 1) (snd (isDone (Horizontal_obj ws)))
     = map (\<lambda>(i, w). ([i], IsDone (fst (fst (isDone w))))) (enumerate 0 ws)"
    using reduce_from_isDone_direct [of 0 True ws]
    by (simp add: reduce_def case_prod_unfold Let_def)
  have c: "filter (\<lambda>e. length (fst e) = 1 \<and> snd e = Tick) (snd (tick (Horizontal_obj ws)))
     = map (\<lambda>(i, w). ([i], Tick))
         (take (Suc (length (takeWhile (\<lambda>w. \<not> isl (fst (tick w))) ws))) (enumerate 0 ws))"
    using each_try_from_tick_direct [of 0 ws]
    by (simp add: tick_Horizontal)
  have d: "fst (tick (Horizontal_obj ws))
     = (if list_all (\<lambda>w. \<not> isl (fst (tick w))) ws
        then Inr (Horizontal_obj (map (\<lambda>w. projr (fst (tick w))) ws))
        else Inl TypeError)"
    using each_try_from_tick_result [of 0 ws]
    by (simp add: tick_Horizontal)
  show ?thesis using a b c d by (simp add: Horizontal_def)
qed

text \<open>
  When no child's tick throws, every child is ticked, once and in list order, done
  or not.
\<close>

lemma Horizontal_ticks_every_child:
  assumes "list_all (\<lambda>w. \<not> isl (fst (tick w))) ws"
  shows "filter (\<lambda>e. length (fst e) = 1 \<and> snd e = Tick) (snd (tick (Horizontal_obj ws)))
           = map (\<lambda>(i, w). ([i], Tick)) (enumerate 0 ws)
       \<and> fst (tick (Horizontal_obj ws))
           = Inr (Horizontal_obj (map (\<lambda>w. projr (fst (tick w))) ws))"
proof -
  have tw: "takeWhile (\<lambda>w. \<not> isl (fst (tick w))) ws = ws"
    using assms by (simp add: list_all_iff)
  have tk: "take (Suc (length ws)) (enumerate 0 ws) = enumerate 0 ws"
    by simp
  show ?thesis
    using Horizontal_queries_and_ticks [of ws] assms unfolding tw tk by simp
qed

text \<open>
  Claim C4: for every non-empty list of children, \<open>isDone()\<close> of \<open>Horizontal\<close> is true iff
  every child's \<open>isDone()\<close> is, every child is queried in list order whatever the
  earlier ones answered, and every \<open>tick()\<close> of \<open>Horizontal\<close> calls \<open>tick()\<close> on every
  child, in list order, done or not. The code breaks the last part for a child that is
  a \<open>Sequence\<close>: \<open>Sequence.tick\<close> reads \<open>widgets[position]\<close> without the bound check that
  \<open>Sequence.isDone\<close> makes, so it throws once the cursor is past the last child. Below,
  \<open>Horizontal\<close> holds a \<open>Sequence\<close> of one static widget and a three-sprite animation.
  After the first callback of the scheduler the cursor of the \<open>Sequence\<close> is past the
  end and the animation is not done. In the next tick of \<open>Horizontal\<close> the tick of the
  \<open>Sequence\<close> throws, the animation is not ticked, and the run has failed for good.
\<close>

theorem C4_throwing_child_stops_tick:
  "Sequence [Static_obj] = Inr (Sequence_obj [Static_obj] 0)
   \<and> Horizontal
        [Sequence_obj [Static_obj] 0, AsciiAnimation_obj [[''a''], [''b''], [''c'']] 0 ''a\<newline>'']
     = Inr (Horizontal_obj
        [Sequence_obj [Static_obj] 0, AsciiAnimation_obj [[''a''], [''b''], [''c'']] 0 ''a\<newline>''])
   \<and> fst (animation
        (Horizontal_obj
           [Sequence_obj [Static_obj] 0, AsciiAnimation_obj [[''a''], [''b''], [''c'']] 0 ''a\<newline>''])
        100 1)
     = Running
        (Horizontal_obj
           [Sequence_obj [Static_obj] 1, AsciiAnimation_obj [[''a''], [''b''], [''c'']] 1 ''b\<newline>''])
   \<and> isDone (AsciiAnimation_obj [[''a''], [''b''], [''c'']] 1 ''b\<newline>'')
     = ((False, AsciiAnimation_obj [[''a''], [''b''], [''c'']] 1 ''b\<newline>''), [([], IsDone False)])
   \<and> tick
        (Horizontal_obj
           [Sequence_obj [Static_obj] 1, AsciiAnimation_obj [[''a''], [''b''], [''c'']] 1 ''b\<newline>''])
     = (Inl TypeError, [([], Tick), ([0], Tick)])
   \<and> fst (animation
        (Horizontal_obj
           [Sequence_obj [Static_obj] 0, AsciiAnimation_obj [[''a''], [''b''], [''c'']] 0 ''a\<newline>''])
        100 5)
     = Failed TypeError"
  by (simp add: Sequence_def Horizontal_def animation_def eval_nat_numeral tick_def each_try_def
      reduce_def useSprite_def
      Sequence_loop.simps [of _ "[Static_obj]" 0] Sequence_loop.simps [of _ "[Static_obj]" "Suc 0"])

subsection \<open>Sequence\<close>

lemma at_child_root [simp]: "at_child i ([], c) = False"
  by (simp add: at_child_def)

lemma at_child_Cons [simp]: "at_child i (j # q, c) = (j = i)"
  by (simp add: at_child_def)

lemma not_at_child_under:
  "i \<noteq> j \<Longrightarrow> list_all (\<lambda>e. \<not> at_child i e) (under [j] es)"
  by (induction es) auto

lemma tick_Sequence_first:
  "tick (Sequence_obj [a, b] 0)
   = (case fst (tick a) of Inl e \<Rightarrow> Inl e | Inr a' \<Rightarrow> Inr (Sequence_obj [a', b] 0),
      ([], Tick) # under [0] (snd (tick a)))"
proof -
  obtain r es where t: "tick_in [] a = (r, es)" by (cases "tick_in [] a")
  show ?thesis using t by (cases r) (simp_all add: tick_def)
qed

lemma tick_Sequence_second:
  "tick (Sequence_obj [a, b] (Suc 0))
   = (case fst (tick b) of Inl e \<Rightarrow> Inl e | Inr b' \<Rightarrow> Inr (Sequence_obj [a, b'] (Suc 0)),
      ([], Tick) # under [Suc 0] (snd (tick b)))"
proof -
  obtain r es where t: "tick_in [] b = (r, es)" by (cases "tick_in [] b")
  show ?thesis using t by (cases r) (simp_all add: tick_def)
qed

lemma Sequence_loop_past: "Sequence_loop f [a, b] (Suc (Suc 0)) = ((Suc (Suc 0), [a, b]), [])"
  by (simp add: Sequence_loop.simps [of f "[a, b]" "Suc (Suc 0)"])

lemma Sequence_loop_second:
  "Sequence_loop f [a, b] (Suc 0)
   = ((if fst (fst (f b)) then Suc (Suc 0) else Suc 0, [a, snd (fst (f b))]),
      under [Suc 0] (snd (f b)))"
  by (simp add: Sequence_loop.simps [of f "[a, b]" "Suc 0"] Sequence_loop_past
      case_prod_unfold Let_def)

lemma Sequence_loop_first:
  "Sequence_loop f [a, b] 0
   = (if fst (fst (f a))
      then ((if fst (fst (f b)) then Suc (Suc 0) else Suc 0, [snd (fst (f a)), snd (fst (f b))]),
            under [0] (snd (f a)) @ under [Suc 0] (snd (f b)))
      else ((0, [snd (fst (f a)), b]), under [0] (snd (f a))))"
  by (simp add: Sequence_loop.simps [of f "[a, b]" 0] Sequence_loop_second
      case_prod_unfold Let_def)

lemma isDone_Sequence_first:
  "isDone (Sequence_obj [a, b] 0)
   = (if fst (fst (isDone a))
      then ((fst (fst (isDone b)),
             Sequence_obj [snd (fst (isDone a)), snd (fst (isDone b))]
               (if fst (fst (isDone b)) then Suc (Suc 0) else Suc 0)),
            under [0] (snd (isDone a)) @ under [Suc 0] (snd (isDone b))
              @ [([], IsDone (fst (fst (isDone b))))])
      else ((False, Sequence_obj [snd (fst (isDone a)), b] 0),
            under [0] (snd (isDone a)) @ [([], IsDone False)]))"
  by (simp add: Sequence_loop_first Let_def)

lemma isDone_Sequence_second:
  "isDone (Sequence_obj [a, b] (Suc 0))
   = ((fst (fst (isDone b)),
       Sequence_obj [a, snd (fst (isDone b))] (if fst (fst (isDone b)) then Suc (Suc 0) else Suc 0)),
      under [Suc 0] (snd (isDone b)) @ [([], IsDone (fst (fst (isDone b))))])"
  by (simp add: Sequence_loop_second Let_def)

lemma isDone_Sequence_past:
  "isDone (Sequence_obj [a, b] (Suc (Suc 0)))
   = ((True, Sequence_obj [a, b] (Suc (Suc 0))), [([], IsDone True)])"
  by (simp add: Sequence_loop_past)

lemma ticker_Sequence_second:
  "list_all (\<lambda>e. \<not> at_child 0 e) (snd (snd (ticker n (Sequence_obj [a, b] (Suc 0)))))"
proof (induction n arbitrary: b)
  case 0
  show ?case by simp
next
  case (Suc n)
  have t: "list_all (\<lambda>e. \<not> at_child 0 e) (under [Suc 0] (snd (tick b)))"
    by (rule not_at_child_under) simp
  show ?case
  proof (cases "fst (tick b)")
    case (Inl e)
    then show ?thesis using t by (simp add: tick_Sequence_second)
  next
    case (Inr b')
    have q: "list_all (\<lambda>e. \<not> at_child 0 e) (under [Suc 0] (snd (isDone b')))"
      by (rule not_at_child_under) simp
    show ?thesis
      using Inr t q Suc.IH [of "snd (fst (isDone b'))"]
      by (simp add: tick_Sequence_second isDone_Sequence_second case_prod_unfold Let_def
          del: isDone.simps)
  qed
qed

lemma ticker_Sequence_first:
  "\<exists>A B. snd (snd (ticker n (Sequence_obj [a, b] 0))) = A @ B
     \<and> list_all (\<lambda>e. \<not> at_child (Suc 0) e) A
     \<and> list_all (\<lambda>e. \<not> at_child 0 e) B
     \<and> (B = [] \<or> (\<exists>A'. A = A' @ [([0], IsDone True)]))"
proof (induction n arbitrary: a)
  case 0
  show ?case by simp
next
  case (Suc n)
  have t: "list_all (\<lambda>e. \<not> at_child (Suc 0) e) (under [0] (snd (tick a)))"
    by (rule not_at_child_under) simp
  show ?case
  proof (cases "fst (tick a)")
    case (Inl e)
    have "snd (snd (ticker (Suc n) (Sequence_obj [a, b] 0)))
        = (([], Tick) # under [0] (snd (tick a))) @ []"
      using Inl by (simp add: tick_Sequence_first)
    moreover have "list_all (\<lambda>e. \<not> at_child (Suc 0) e) (([], Tick) # under [0] (snd (tick a)))"
      using t by simp
    ultimately show ?thesis by (metis list.pred_inject(1))
  next
    case (Inr a1)
    have q: "list_all (\<lambda>e. \<not> at_child (Suc 0) e) (under [0] (snd (isDone a1)))"
      by (rule not_at_child_under) simp
    let ?T = "([], Tick) # under [0] (snd (tick a))"
    show ?thesis
    proof (cases "fst (fst (isDone a1))")
      case False
      obtain A B where ih: "snd (snd (ticker n (Sequence_obj [snd (fst (isDone a1)), b] 0))) = A @ B"
        "list_all (\<lambda>e. \<not> at_child (Suc 0) e) A" "list_all (\<lambda>e. \<not> at_child 0 e) B"
        "B = [] \<or> (\<exists>A'. A = A' @ [([0], IsDone True)])"
        using Suc.IH [of "snd (fst (isDone a1))"] by blast
      let ?A = "?T @ under [0] (snd (isDone a1)) @ [([], IsDone False)] @ A"
      have 1: "snd (snd (ticker (Suc n) (Sequence_obj [a, b] 0))) = ?A @ B"
        using Inr False ih(1)
        by (simp add: tick_Sequence_first isDone_Sequence_first case_prod_unfold Let_def
            del: isDone.simps)
      have 2: "list_all (\<lambda>e. \<not> at_child (Suc 0) e) ?A" using t q ih(2) by simp
      have 3: "B = [] \<or> (\<exists>A'. ?A = A' @ [([0], IsDone True)])"
      proof (cases "B = []")
        case True
        then show ?thesis by simp
      next
        case False
        then obtain A' where "A = A' @ [([0], IsDone True)]" using ih(4) by blast
        then have "?A = (?T @ under [0] (snd (isDone a1)) @ [([], IsDone False)] @ A')
            @ [([0], IsDone True)]" by simp
        then show ?thesis by blast
      qed
      show ?thesis using 1 2 3 ih(3) by blast
    next
      case True
      obtain es where last: "snd (isDone a1) = es @ [([], IsDone True)]"
        using isDone_last [of a1] True by auto
      let ?A = "?T @ under [0] (snd (isDone a1))"
      let ?b1 = "snd (fst (isDone b))"
      let ?Q = "under [Suc 0] (snd (isDone b)) @ [([], IsDone (fst (fst (isDone b))))]"
      let ?B = "?Q @ (if fst (fst (isDone b)) then []
                 else snd (snd (ticker n (Sequence_obj [snd (fst (isDone a1)), ?b1] (Suc 0)))))"
      have 1: "snd (snd (ticker (Suc n) (Sequence_obj [a, b] 0))) = ?A @ ?B"
        using Inr True
        by (simp add: tick_Sequence_first isDone_Sequence_first case_prod_unfold Let_def
            del: isDone.simps)
      have 2: "list_all (\<lambda>e. \<not> at_child (Suc 0) e) ?A" using t q by simp
      have "list_all (\<lambda>e. \<not> at_child 0 e) (under [Suc 0] (snd (isDone b)))"
        by (rule not_at_child_under) simp
      then have 3: "list_all (\<lambda>e. \<not> at_child 0 e) ?B"
        using ticker_Sequence_second [of n "snd (fst (isDone a1))" ?b1] by simp
      have "?A = (?T @ under [0] es) @ [([0], IsDone True)]" using last by simp
      then have 4: "\<exists>A'. ?A = A' @ [([0], IsDone True)]" by blast
      show ?thesis using 1 2 3 4 by blast
    qed
  qed
qed

text \<open>
  Claim C5: for \<open>Sequence([a, b])\<close> driven by the scheduler (a tick, then a query, at
  each step), \<open>b\<close> gets no tick before \<open>a.isDone()\<close> has returned true; once \<open>a\<close> has
  completed, every tick goes to \<open>b\<close>; and \<open>isDone()\<close> of the composite moves the cursor
  past every child that is done and returns true iff the cursor is then out of range.
  A tick goes to the child under the cursor alone. A query at cursor \<open>0\<close> asks \<open>a\<close>, and
  if \<open>a\<close> is done also \<open>b\<close>; the new cursor is \<open>0\<close>, \<open>1\<close> or \<open>2\<close> as neither, only \<open>a\<close>, or
  both are done, and the answer is true exactly when it is \<open>2\<close>. The calls of a run of
  any length split in two parts: in the first no call reaches \<open>b\<close>, in the second no
  call reaches \<open>a\<close>, and the second part is empty unless the first ends with
  \<open>a.isDone()\<close> returning true.
\<close>

theorem C5_Sequence_of_two:
  "Sequence [a, b] = Inr (Sequence_obj [a, b] 0)
   \<and> tick (Sequence_obj [a, b] 0)
     = (case fst (tick a) of Inl e \<Rightarrow> Inl e | Inr a' \<Rightarrow> Inr (Sequence_obj [a', b] 0),
        ([], Tick) # under [0] (snd (tick a)))
   \<and> tick (Sequence_obj [a, b] 1)
     = (case fst (tick b) of Inl e \<Rightarrow> Inl e | Inr b' \<Rightarrow> Inr (Sequence_obj [a, b'] 1),
        ([], Tick) # under [1] (snd (tick b)))
   \<and> fst (isDone (Sequence_obj [a, b] 0))
     = (if fst (fst (isDone a))
        then (fst (fst (isDone b)),
              Sequence_obj [snd (fst (isDone a)), snd (fst (isDone b))]
                (if fst (fst (isDone b)) then 2 else 1))
        else (False, Sequence_obj [snd (fst (isDone a)), b] 0))
   \<and> fst (isDone (Sequence_obj [a, b] 1))
     = (fst (fst (isDone b)),
        Sequence_obj [a, snd (fst (isDone b))] (if fst (fst (isDone b)) then 2 else 1))
   \<and> fst (isDone (Sequence_obj [a, b] 2)) = (True, Sequence_obj [a, b] 2)
   \<and> (\<exists>A B. snd (snd (animation (Sequence_obj [a, b] 0) period n)) = A @ B
         \<and> list_all (\<lambda>e. \<not> at_child 1 e) A
         \<and> list_all (\<lambda>e. \<not> at_child 0 e) B
         \<and> (B = [] \<or> (\<exists>A'. A = A' @ [([0], IsDone True)])))"
proof -
  have t0: "tick (Sequence_obj [a, b] 0)
     = (case fst (tick a) of Inl e \<Rightarrow> Inl e | Inr a' \<Rightarrow> Inr (Sequence_obj [a', b] 0),
        ([], Tick) # under [0] (snd (tick a)))"
    by (rule tick_Sequence_first)
  have t1: "tick (Sequence_obj [a, b] 1)
     = (case fst (tick b) of Inl e \<Rightarrow> Inl e | Inr b' \<Rightarrow> Inr (Sequence_obj [a, b'] 1),
        ([], Tick) # under [1] (snd (tick b)))"
    unfolding One_nat_def by (rule tick_Sequence_second)
  have q0: "fst (isDone (Sequence_obj [a, b] 0))
     = (if fst (fst (isDone a))
        then (fst (fst (isDone b)),
              Sequence_obj [snd (fst (isDone a)), snd (fst (isDone b))]
                (if fst (fst (isDone b)) then 2 else 1))
        else (False, Sequence_obj [snd (fst (isDone a)), b] 0))"
    by (simp add: isDone_Sequence_first del: isDone.simps)
  have q1: "fst (isDone (Sequence_obj [a, b] 1))
     = (fst (fst (isDone b)),
        Sequence_obj [a, snd (fst (isDone b))] (if fst (fst (isDone b)) then 2 else 1))"
    using isDone_Sequence_second [of a b] by (simp del: isDone.simps)
  have q2: "fst (isDone (Sequence_obj [a, b] 2)) = (True, Sequence_obj [a, b] 2)"
    using isDone_Sequence_past [of a b] by (simp add: numeral_2_eq_2 del: isDone.simps)
  have run: "\<exists>A B. snd (snd (animation (Sequence_obj [a, b] 0) period n)) = A @ B
         \<and> list_all (\<lambda>e. \<not> at_child 1 e) A
         \<and> list_all (\<lambda>e. \<not> at_child 0 e) B
         \<and> (B = [] \<or> (\<exists>A'. A = A' @ [([0], IsDone True)]))"
    using ticker_Sequence_first [of n a b] by (simp add: animation_def)
  have c: "Sequence [a, b] = Inr (Sequence_obj [a, b] 0)"
    by (simp add: Sequence_def)
  show ?thesis using c t0 t1 q0 q1 q2 run by blast
qed

subsection \<open>Leaf widgets and constructors\<close>

text \<open>
  Claim C3: after any ticks, \<open>reset()\<close> of an \<open>AsciiAnimation\<close> sets the frame index to \<open>0\<close>
  and renders frame \<open>0\<close> again, so that the state is the one after construction.
  The code sets \<open>animationFrame\<close> alone. For the two-sprite animation below, one tick
  renders sprite \<open>1\<close>; the reset that follows leaves sprite \<open>1\<close> on display with the
  frame index at \<open>0\<close>, which is not the constructed state.
\<close>

theorem C3_reset_keeps_rendered_frame:
  "AsciiAnimation [[''a''], [''b'']] = Inr (AsciiAnimation_obj [[''a''], [''b'']] 0 ''a\<newline>'')
   \<and> tick (AsciiAnimation_obj [[''a''], [''b'']] 0 ''a\<newline>'')
       = (Inr (AsciiAnimation_obj [[''a''], [''b'']] 1 ''b\<newline>''), [([], Tick)])
   \<and> reset (AsciiAnimation_obj [[''a''], [''b'']] 1 ''b\<newline>'')
       = (AsciiAnimation_obj [[''a''], [''b'']] 0 ''b\<newline>'', [([], Reset)])
   \<and> AsciiAnimation_obj [[''a''], [''b'']] 0 ''b\<newline>''
       \<noteq> AsciiAnimation_obj [[''a''], [''b'']] 0 ''a\<newline>''"
  by (simp add: AsciiAnimation_def useSprite_def tick_def here_def)

text \<open>
  Claim C7: \<open>reset()\<close> of a \<open>ChangingPosition\<close> widget resets the wrapped widget and
  leaves the elapsed time as it is, so \<open>isDone()\<close> answers after the reset what it
  answered before: whether the time has reached \<open>maxTime\<close>.
\<close>

theorem C7_ChangingPosition_reset_keeps_time:
  "reset (ChangingPosition_obj parent maxTime atTime time offset)
     = (ChangingPosition_obj (fst (reset parent)) maxTime atTime time offset,
        ([], Reset) # under [0] (snd (reset parent)))
   \<and> fst (fst (isDone (ChangingPosition_obj parent maxTime atTime time offset)))
     = (maxTime \<le> time)
   \<and> fst (fst (isDone (fst (reset (ChangingPosition_obj parent maxTime atTime time offset)))))
     = (maxTime \<le> time)"
  by (simp add: case_prod_unfold Let_def)

text \<open>
  Claim C8: constructing \<open>Sequence\<close> or \<open>Horizontal\<close> with an empty child list,
  \<open>Repeat\<close> with negative \<open>times\<close> or \<open>ChangingPosition\<close> with \<open>maxTime = 0\<close> fails at
  construction with a \<open>ConfigurationError\<close>. The claim fails: \<open>Horizontal([])\<close> returns a
  widget, and that widget is done at the first query.
\<close>

theorem C8_Horizontal_empty_constructs:
  "Horizontal [] = Inr (Horizontal_obj [])
   \<and> isDone (Horizontal_obj []) = ((True, Horizontal_obj []), [([], IsDone True)])"
  by (simp add: Horizontal_def reduce_def)

text \<open>
  Claim C8 as amended: no constructor checks its configuration. \<open>Horizontal\<close> returns a
  widget for every child list, \<open>Repeat\<close> for every number of times and
  \<open>ChangingPosition\<close> for every \<open>maxTime\<close>; the widgets built from an empty list, a
  negative number of times or \<open>maxTime = 0\<close> are done at the first query. \<open>Sequence\<close>
  with an empty list fails at construction, with the \<open>TypeError\<close> of reading
  \<open>widgets[0].getElement\<close>, and returns a widget for every other list.
\<close>

theorem C8_constructors_do_not_validate:
  "Horizontal widgets = Inr (Horizontal_obj widgets)
   \<and> Repeat widget ntimes = Inr (Repeat_obj widget ntimes)
   \<and> ChangingPosition parent maxTime atTime
       = Inr (ChangingPosition_obj parent maxTime atTime 0 (atTime 0))
   \<and> Sequence [] = Inl TypeError
   \<and> Sequence (w # ws) = Inr (Sequence_obj (w # ws) 0)
   \<and> fst (fst (isDone (Horizontal_obj []))) = True
   \<and> fst (fst (isDone (Repeat_obj widget (- 1)))) = True
   \<and> fst (fst (isDone (Repeat_obj widget ntimes))) = (ntimes \<le> 0)
   \<and> fst (fst (isDone (ChangingPosition_obj parent 0 atTime 0 (atTime 0)))) = True"
  by (simp add: Horizontal_def Repeat_def ChangingPosition_def Sequence_def reduce_def
      case_prod_unfold Let_def)

text \<open>
  Claim C9: once an \<open>AsciiAnimation\<close> is done (its frame index has reached the number
  of sprites), a further \<open>tick()\<close> returns without error, leaves the rendered content
  as it is, and \<open>isDone()\<close> is still true; the widget is then still past its last
  sprite, so the same holds for the tick after.
\<close>

theorem C9_tick_after_done:
  "length sprites \<le> animationFrame \<Longrightarrow>
   tick (AsciiAnimation_obj sprites animationFrame innerHTML)
     = (Inr (AsciiAnimation_obj sprites (Suc animationFrame) innerHTML), [([], Tick)])
   \<and> isDone (AsciiAnimation_obj sprites (Suc animationFrame) innerHTML)
     = ((True, AsciiAnimation_obj sprites (Suc animationFrame) innerHTML), [([], IsDone True)])
   \<and> length sprites \<le> Suc animationFrame"
  by (simp add: tick_def here_def)

theorem C9_tick_after_done_witness:
  "length [[''a'']] \<le> (1::nat)
   \<and> isDone (AsciiAnimation_obj [[''a'']] 1 ''a\<newline>'')
       = ((True, AsciiAnimation_obj [[''a'']] 1 ''a\<newline>''), [([], IsDone True)])
   \<and> tick (AsciiAnimation_obj [[''a'']] 1 ''a\<newline>'')
       = (Inr (AsciiAnimation_obj [[''a'']] 2 ''a\<newline>''), [([], Tick)])
   \<and> isDone (AsciiAnimation_obj [[''a'']] 2 ''a\<newline>'')
       = ((True, AsciiAnimation_obj [[''a'']] 2 ''a\<newline>''), [([], IsDone True)])"
  using C9_tick_after_done [of "[[''a'']]" 1 "''a\<newline>''"] by (simp add: numeral_2_eq_2)

end
